theory Spec2Isabelle
  imports Main "HOL-Library.List_Lexorder"
begin

unbundle bit_operations_syntax

section \<open>Python values and errors\<close>

text \<open>
  Python integers are unbounded, so they are \<^typ>\<open>int\<close>. Python's \<^verbatim>\<open>//\<close> and
  \<^verbatim>\<open>%\<close> round towards minus infinity, as \<open>div\<close> and \<open>mod\<close> on \<^typ>\<open>int\<close> do;
  they raise \<^verbatim>\<open>ZeroDivisionError\<close> on a zero divisor, where HOL returns a value, so
  every division whose divisor can be zero has its own error branch.
  The exceptions the functions of \<^verbatim>\<open>RSA.py\<close> and \<^verbatim>\<open>test_rsa.py\<close> can raise:
\<close>

datatype error = ValueError | TypeError | ZeroDivisionError | RecursionError

text \<open>
  Two limits of the CPython interpreter are part of what the functions do. A call that
  would nest deeper than the recursion limit raises \<^verbatim>\<open>RecursionError\<close>, and
  \<^verbatim>\<open>int(s)\<close> and \<^verbatim>\<open>str(i)\<close> raise \<^verbatim>\<open>ValueError\<close> beyond a number of decimal
  digits. Both are given their default values (\<^verbatim>\<open>sys.getrecursionlimit()\<close> and
  \<^verbatim>\<open>sys.get_int_max_str_digits()\<close>). Memory and running time are not bounded in the
  model.
\<close>

definition recursion_limit :: nat where
  "recursion_limit = 1000"

definition int_max_str_digits :: nat where
  "int_max_str_digits = 4300"

section \<open>Modular arithmetic kernel\<close>

subsection \<open>Extended Euclid\<close>

text \<open>
  \<^verbatim>\<open>extended_gcd\<close> of \<^verbatim>\<open>RSA.py\<close> (lines 222-240). The base case returns \<^verbatim>\<open>a, 1, 0\<close>.
  The function calls itself once for every step of Euclid's algorithm, so its depth
  grows with its arguments. The first argument \<open>frames\<close> is the number of calls that
  the interpreter can still nest when the function is called: the recursion limit less
  the depth of the caller, hence at most \<^const>\<open>recursion_limit\<close>. Each call takes one
  frame, and a call with none left raises \<^verbatim>\<open>RecursionError\<close>.
\<close>

fun extended_gcd :: "nat \<Rightarrow> int \<Rightarrow> int \<Rightarrow> error + (int \<times> int \<times> int)" where
  "extended_gcd 0 a b = Inl RecursionError"
| "extended_gcd (Suc frames) a b =
     (if b = 0 then Inr (a, 1, 0)
      else (case extended_gcd frames b (a mod b) of
              Inl err \<Rightarrow> Inl err
            | Inr (gcd_val, x1, y1) \<Rightarrow>
                (let d = y1; y = x1 - (a div b) * y1 in Inr (gcd_val, d, y))))"

text \<open>
  \<^verbatim>\<open>extended_gcd\<close> of \<^verbatim>\<open>test_rsa.py\<close> (lines 19-28). The base case returns
  \<^verbatim>\<open>abs(a), 1 if a >= 0 else -1, 0\<close>.
\<close>

fun extended_gcd_test_rsa :: "nat \<Rightarrow> int \<Rightarrow> int \<Rightarrow> error + (int \<times> int \<times> int)" where
  "extended_gcd_test_rsa 0 a b = Inl RecursionError"
| "extended_gcd_test_rsa (Suc frames) a b =
     (if b = 0 then Inr (\<bar>a\<bar>, if a \<ge> 0 then 1 else - 1, 0)
      else (case extended_gcd_test_rsa frames b (a mod b) of
              Inl err \<Rightarrow> Inl err
            | Inr (gcd_val, x1, y1) \<Rightarrow>
                (let x = y1; y = x1 - (a div b) * y1 in Inr (gcd_val, x, y))))"

subsection \<open>Modular inverse\<close>

text \<open>
  \<^verbatim>\<open>modinv\<close> of \<^verbatim>\<open>RSA.py\<close> (lines 243-264) and \<^verbatim>\<open>modular_inverse\<close> of
  \<^verbatim>\<open>test_rsa.py\<close> (lines 31-38). Both raise \<^verbatim>\<open>ValueError\<close> when the first component
  is not 1 (formatting the message of that exception from the arguments can fail only
  with a \<^verbatim>\<open>ValueError\<close> as well, so the model has one error for both), and both
  reduce with \<^verbatim>\<open>%\<close>, which raises on a zero modulus. Here
  \<open>frames\<close> is the number of calls that can still be nested when the function calls
  \<^verbatim>\<open>extended_gcd\<close>; an exception of that call passes through.
\<close>

definition modinv :: "nat \<Rightarrow> int \<Rightarrow> int \<Rightarrow> error + int" where
  "modinv frames e phi =
     (case extended_gcd frames e phi of
        Inl err \<Rightarrow> Inl err
      | Inr (gcd_val, d, _) \<Rightarrow>
          if gcd_val \<noteq> 1 then Inl ValueError
          else if phi = 0 then Inl ZeroDivisionError
          else Inr (d mod phi))"

definition modular_inverse :: "nat \<Rightarrow> int \<Rightarrow> int \<Rightarrow> error + int" where
  "modular_inverse frames a m =
     (case extended_gcd_test_rsa frames a m of
        Inl err \<Rightarrow> Inl err
      | Inr (gcd_val, x, _) \<Rightarrow>
          if gcd_val \<noteq> 1 then Inl ValueError
          else if m = 0 then Inl ZeroDivisionError
          else Inr (x mod m))"

subsection \<open>Modular exponentiation\<close>

text \<open>
  \<^verbatim>\<open>modular_exponentiation\<close> of \<^verbatim>\<open>test_rsa.py\<close> (lines 41-52). The loop state is
  \<^verbatim>\<open>(result, base, exp)\<close>; \<^verbatim>\<open>exp & 1\<close> is tested for being non-zero and
  \<^verbatim>\<open>exp >>= 1\<close> drops the lowest bit. The loop runs while \<^verbatim>\<open>exp > 0\<close>.
\<close>

function modular_exponentiation_loop :: "int \<Rightarrow> int \<Rightarrow> int \<Rightarrow> int \<Rightarrow> int" where
  "modular_exponentiation_loop result base exp mod' =
     (if exp > 0 then
        modular_exponentiation_loop
          (if exp AND 1 \<noteq> 0 then (result * base) mod mod' else result)
          ((base * base) mod mod')
          (drop_bit 1 exp)
          mod'
      else result)"
  by pat_completeness auto
termination
  by (relation "measure (\<lambda>(result, base, exp, mod'). nat exp)")
     (auto simp: drop_bit_eq_div)

definition modular_exponentiation :: "int \<Rightarrow> int \<Rightarrow> int \<Rightarrow> error + int" where
  "modular_exponentiation base exp mod' =
     (if mod' = 0 then Inl ZeroDivisionError
      else Inr (modular_exponentiation_loop 1 (base mod mod') exp mod'))"

text \<open>
  \<^verbatim>\<open>modular_exponentiation_traced\<close> of \<^verbatim>\<open>RSA.py\<close> (lines 122-191), with the
  printing of the trace left out (it reads the state and changes nothing). It differs
  from the loop above in squaring the base only when the shifted exponent is still
  positive.
\<close>

function modular_exponentiation_traced_loop :: "int \<Rightarrow> int \<Rightarrow> int \<Rightarrow> int \<Rightarrow> int" where
  "modular_exponentiation_traced_loop result base exp mod' =
     (if exp > 0 then
        (let result = (if exp AND 1 \<noteq> 0 then (result * base) mod mod' else result);
             exp = drop_bit 1 exp;
             base = (if exp > 0 then (base * base) mod mod' else base)
         in modular_exponentiation_traced_loop result base exp mod')
      else result)"
  by pat_completeness auto
termination
  by (relation "measure (\<lambda>(result, base, exp, mod'). nat exp)")
     (auto simp: drop_bit_eq_div)

definition modular_exponentiation_traced :: "int \<Rightarrow> int \<Rightarrow> int \<Rightarrow> error + int" where
  "modular_exponentiation_traced base exp mod' =
     (if mod' = 0 then Inl ZeroDivisionError
      else Inr (modular_exponentiation_traced_loop 1 (base mod mod') exp mod'))"

section \<open>Python strings\<close>

text \<open>
  A Python \<^verbatim>\<open>str\<close> is a sequence of Unicode code points. The model covers the code
  points 0 to 255 (Basic Latin and Latin-1 Supplement): a \<^typ>\<open>char\<close> is read as the
  code point \<open>of_char c\<close>, not as a byte of an encoding, and a \<^typ>\<open>string\<close> as a
  \<^verbatim>\<open>str\<close> over that range. The results of \<^verbatim>\<open>str.upper\<close> can leave the range, so
  they are lists of code points.

  \<^verbatim>\<open>str.isalpha\<close> and \<^verbatim>\<open>str.upper\<close> of a one-character string, from the Unicode
  character database for code points below 256. Upper-casing \<^verbatim>\<open>U+00DF\<close> gives the two
  characters \<^verbatim>\<open>SS\<close>; \<^verbatim>\<open>U+00B5\<close> and \<^verbatim>\<open>U+00FF\<close> map to \<^verbatim>\<open>U+039C\<close> and
  \<^verbatim>\<open>U+0178\<close>.
\<close>

definition py_isalpha :: "char \<Rightarrow> bool" where
  "py_isalpha c =
     (let n = (of_char c :: nat)
      in (65 \<le> n \<and> n \<le> 90) \<or> (97 \<le> n \<and> n \<le> 122) \<or> n = 170 \<or> n = 181 \<or> n = 186 \<or>
         (192 \<le> n \<and> n \<le> 214) \<or> (216 \<le> n \<and> n \<le> 246) \<or> (248 \<le> n \<and> n \<le> 255))"

definition py_upper :: "char \<Rightarrow> nat list" where
  "py_upper c =
     (let n = (of_char c :: nat)
      in if 97 \<le> n \<and> n \<le> 122 then [n - 32]
         else if n = 181 then [924]
         else if n = 223 then [83, 83]
         else if (224 \<le> n \<and> n \<le> 246) \<or> (248 \<le> n \<and> n \<le> 254) then [n - 32]
         else if n = 255 then [376]
         else [n])"

text \<open>
  \<^verbatim>\<open>ord\<close> raises \<^verbatim>\<open>TypeError\<close> on a string that is not one character long.
\<close>

definition py_ord :: "nat list \<Rightarrow> error + nat" where
  "py_ord s = (case s of [c] \<Rightarrow> Inr c | _ \<Rightarrow> Inl TypeError)"

text \<open>
  Decimal digits. \<^verbatim>\<open>int(s)\<close> is modelled on strings of the ASCII digits, the only
  strings the functions below build from a digit string: it parses them in base ten,
  raises \<^verbatim>\<open>ValueError\<close> on the empty string, and raises \<^verbatim>\<open>ValueError\<close> on a string
  of more than \<^const>\<open>int_max_str_digits\<close> digits, leading zeros included. On every other
  string the model raises \<^verbatim>\<open>ValueError\<close> too; the signs, blanks, underscores and
  non-ASCII digits that CPython accepts besides are outside the model.
\<close>

definition is_digit :: "char \<Rightarrow> bool" where
  "is_digit c = (48 \<le> (of_char c :: nat) \<and> (of_char c :: nat) \<le> 57)"

definition digit_string :: "string \<Rightarrow> bool" where
  "digit_string s = (\<forall>c \<in> set s. is_digit c)"

definition digit_val :: "char \<Rightarrow> nat" where
  "digit_val c = of_char c - 48"

definition digit_char :: "nat \<Rightarrow> char" where
  "digit_char d = char_of (48 + d)"

definition digits_val :: "string \<Rightarrow> nat" where
  "digits_val s = foldl (\<lambda>a c. 10 * a + digit_val c) 0 s"

definition py_int :: "string \<Rightarrow> error + int" where
  "py_int s =
     (if s \<noteq> [] \<and> digit_string s then
        (if length s \<le> int_max_str_digits then Inr (int (digits_val s))
         else Inl ValueError)
      else Inl ValueError)"

text \<open>
  The decimal representation of an integer is \<open>py_str i\<close>. The call \<^verbatim>\<open>str(i)\<close> returns
  it, unless it has more than \<^const>\<open>int_max_str_digits\<close> digits (the sign not counted),
  in which case the call raises \<^verbatim>\<open>ValueError\<close>: that is \<open>py_str_limited\<close>.
  \<^verbatim>\<open>s.zfill(width)\<close> pads with zeros on the left, after a leading sign if there is
  one, and returns \<^verbatim>\<open>s\<close> itself when it is long enough. The format \<^verbatim>\<open>f"{v:02d}"\<close> is
  \<^verbatim>\<open>str(v).zfill(2)\<close>; the codec applies it to the values 0 to 25 only, which have one
  or two digits, so its model carries no error.
\<close>

function str_nat :: "nat \<Rightarrow> string" where
  "str_nat n = (if n < 10 then [digit_char n] else str_nat (n div 10) @ [digit_char (n mod 10)])"
  by pat_completeness auto
termination
  by (relation "measure (\<lambda>n. n)") auto

definition py_str :: "int \<Rightarrow> string" where
  "py_str i = (if i < 0 then CHR ''-'' # str_nat (nat (- i)) else str_nat (nat i))"

definition py_str_limited :: "int \<Rightarrow> error + string" where
  "py_str_limited i =
     (if length (str_nat (nat \<bar>i\<bar>)) \<le> int_max_str_digits then Inr (py_str i)
      else Inl ValueError)"

definition zfill :: "nat \<Rightarrow> string \<Rightarrow> string" where
  "zfill width s =
     (if width \<le> length s then s
      else (case s of
              [] \<Rightarrow> replicate width CHR ''0''
            | c # rest \<Rightarrow>
                if c = CHR ''+'' \<or> c = CHR ''-''
                then c # replicate (width - length s) CHR ''0'' @ rest
                else replicate (width - length s) CHR ''0'' @ s))"

definition format_02d :: "int \<Rightarrow> string" where
  "format_02d v = zfill 2 (py_str v)"

section \<open>Text codec\<close>

text \<open>
  \<^verbatim>\<open>map_text_to_numbers\<close> of \<^verbatim>\<open>RSA.py\<close> (lines 17-36). Each character is tested with
  \<^verbatim>\<open>isalpha\<close>, replaced by its \<^verbatim>\<open>upper()\<close> (a string), compared as a string with
  \<^verbatim>\<open>'A'\<close> and \<^verbatim>\<open>'Z'\<close>, and passed to \<^verbatim>\<open>ord\<close>. Strings are compared
  lexicographically by code point.
\<close>

fun map_text_to_numbers_loop :: "string \<Rightarrow> string \<Rightarrow> error + string" where
  "map_text_to_numbers_loop [] numeric_str = Inr numeric_str"
| "map_text_to_numbers_loop (char # text) numeric_str =
     (if \<not> py_isalpha char then map_text_to_numbers_loop text numeric_str
      else
        (let char = py_upper char in
         if [65] \<le> char \<and> char \<le> [90] then
           (case py_ord char of
              Inl err \<Rightarrow> Inl err
            | Inr code \<Rightarrow>
                (let numeric_value = int code - 65
                 in map_text_to_numbers_loop text (numeric_str @ format_02d numeric_value)))
         else map_text_to_numbers_loop text numeric_str))"

definition map_text_to_numbers :: "string \<Rightarrow> error + string" where
  "map_text_to_numbers text = map_text_to_numbers_loop text []"

text \<open>
  \<^verbatim>\<open>text_to_numbers\<close> of \<^verbatim>\<open>test_rsa.py\<close> (lines 59-69). The whole text is upper-cased
  first, and the loop runs over the characters of the result.
\<close>

fun text_to_numbers_loop :: "nat list \<Rightarrow> string \<Rightarrow> string" where
  "text_to_numbers_loop [] numeric_str = numeric_str"
| "text_to_numbers_loop (char # text) numeric_str =
     (if 65 \<le> char \<and> char \<le> 90 then
        (let value = int char - 65
         in text_to_numbers_loop text (numeric_str @ format_02d value))
      else text_to_numbers_loop text numeric_str)"

definition text_to_numbers :: "string \<Rightarrow> string" where
  "text_to_numbers text = text_to_numbers_loop (concat (map py_upper text)) []"

text \<open>
  \<^verbatim>\<open>map_numbers_to_text\<close> of \<^verbatim>\<open>RSA.py\<close> (lines 39-56); \<^verbatim>\<open>numbers_to_text\<close> of
  \<^verbatim>\<open>test_rsa.py\<close> (lines 72-83) is the same code. The index \<^verbatim>\<open>i\<close> runs over
  \<^verbatim>\<open>range(0, len(numeric_str), 2)\<close>; the slice \<^verbatim>\<open>numeric_str[i:i+2]\<close> is
  \<open>take 2 (drop i numeric_str)\<close>; \<^verbatim>\<open>chr(ord('A') + v)\<close> is \<open>char_of (65 + v)\<close>.
\<close>

function map_numbers_to_text_loop :: "string \<Rightarrow> nat \<Rightarrow> string \<Rightarrow> error + string" where
  "map_numbers_to_text_loop numeric_str i text =
     (if i < length numeric_str then
        (if i + 1 < length numeric_str then
           (let pair = take 2 (drop i numeric_str) in
            case py_int pair of
              Inl err \<Rightarrow> Inl err
            | Inr numeric_value \<Rightarrow>
                map_numbers_to_text_loop numeric_str (i + 2)
                  (if 0 \<le> numeric_value \<and> numeric_value \<le> 25
                   then text @ [char_of (65 + numeric_value)] else text))
         else map_numbers_to_text_loop numeric_str (i + 2) text)
      else Inr text)"
  by pat_completeness auto
termination
  by (relation "measure (\<lambda>(numeric_str, i, text). length numeric_str - i)") auto

definition map_numbers_to_text :: "string \<Rightarrow> error + string" where
  "map_numbers_to_text numeric_str = map_numbers_to_text_loop numeric_str 0 []"

section \<open>Block packer and unpacker\<close>

text \<open>
  \<^verbatim>\<open>split_into_blocks\<close> (\<^verbatim>\<open>RSA.py\<close> lines 78-115, and the same code in
  \<^verbatim>\<open>test_rsa.py\<close> lines 86-113). A block is a pair of its value and its number of
  letters; the number is counted up from 0, so it is a \<^typ>\<open>nat\<close>.

  The inner loop grows \<^verbatim>\<open>current_block\<close> from position \<^verbatim>\<open>i\<close>; it ends at the end of
  the input, at a single trailing character, or at a pair that would make the value
  reach the modulus. Each of its iterations advances \<^verbatim>\<open>i\<close>, so it terminates.
\<close>

function split_into_blocks_inner ::
  "string \<Rightarrow> int \<Rightarrow> string \<Rightarrow> nat \<Rightarrow> nat \<Rightarrow> error + (string \<times> nat \<times> nat)" where
  "split_into_blocks_inner numeric_str modulus current_block letters_count i =
     (if i < length numeric_str then
        (if i + 1 < length numeric_str then
           (let next_pair = take 2 (drop i numeric_str);
                test_block = current_block @ next_pair in
            case py_int test_block of
              Inl err \<Rightarrow> Inl err
            | Inr test_value \<Rightarrow>
                if test_value < modulus then
                  split_into_blocks_inner numeric_str modulus test_block (letters_count + 1) (i + 2)
                else Inr (current_block, letters_count, i))
         else Inr (current_block, letters_count, i))
      else Inr (current_block, letters_count, i))"
  by pat_completeness auto
termination
  by (relation "measure (\<lambda>(numeric_str, modulus, current_block, letters_count, i).
        length numeric_str - i)") auto

text \<open>
  The outer loop runs while \<^verbatim>\<open>i < len(numeric_str)\<close> and has no other exit. When the
  inner loop consumes nothing, the outer loop repeats in the same state for ever:
  the function is partial, and \<open>None\<close> stands for a call that never returns.
\<close>

partial_function (option) split_into_blocks_outer ::
  "string \<Rightarrow> int \<Rightarrow> (int \<times> nat) list \<Rightarrow> nat \<Rightarrow> (error + (int \<times> nat) list) option" where
  "split_into_blocks_outer numeric_str modulus blocks i =
     (if i < length numeric_str then
        (case split_into_blocks_inner numeric_str modulus [] 0 i of
           Inl err \<Rightarrow> Some (Inl err)
         | Inr (current_block, letters_count, i') \<Rightarrow>
             if current_block \<noteq> [] then
               (case py_int current_block of
                  Inl err \<Rightarrow> Some (Inl err)
                | Inr v \<Rightarrow>
                    split_into_blocks_outer numeric_str modulus
                      (blocks @ [(v, letters_count)]) i')
             else split_into_blocks_outer numeric_str modulus blocks i')
      else Some (Inr blocks))"

definition split_into_blocks :: "string \<Rightarrow> int \<Rightarrow> (error + (int \<times> nat) list) option" where
  "split_into_blocks numeric_str modulus = split_into_blocks_outer numeric_str modulus [] 0"

text \<open>
  \<^verbatim>\<open>reconstruct_numeric_string\<close> of \<^verbatim>\<open>RSA.py\<close> (lines 291-337), without the printing.
  The call \<^verbatim>\<open>str(M)\<close> can raise.
\<close>

fun reconstruct_numeric_string_loop :: "(int \<times> nat) list \<Rightarrow> string \<Rightarrow> error + string" where
  "reconstruct_numeric_string_loop [] numeric_str = Inr numeric_str"
| "reconstruct_numeric_string_loop ((M, num_letters) # decrypted_blocks) numeric_str =
     (let expected_length = num_letters * 2 in
      case py_str_limited M of
        Inl err \<Rightarrow> Inl err
      | Inr str_M \<Rightarrow>
          (let block_str = zfill expected_length str_M
           in reconstruct_numeric_string_loop decrypted_blocks (numeric_str @ block_str)))"

definition reconstruct_numeric_string :: "(int \<times> nat) list \<Rightarrow> error + string" where
  "reconstruct_numeric_string decrypted_blocks =
     reconstruct_numeric_string_loop decrypted_blocks []"

section \<open>RSA pipeline\<close>

text \<open>
  \<^verbatim>\<open>encrypt_message\<close> and \<^verbatim>\<open>decrypt_message\<close> of \<^verbatim>\<open>test_rsa.py\<close> (lines 120-143).
\<close>

fun encrypt_message_loop ::
  "(int \<times> nat) list \<Rightarrow> int \<Rightarrow> int \<Rightarrow> (int \<times> nat) list \<Rightarrow> error + (int \<times> nat) list" where
  "encrypt_message_loop [] e n encrypted_blocks = Inr encrypted_blocks"
| "encrypt_message_loop ((block_value, num_letters) # blocks) e n encrypted_blocks =
     (case modular_exponentiation block_value e n of
        Inl err \<Rightarrow> Inl err
      | Inr cipher_value \<Rightarrow>
          encrypt_message_loop blocks e n (encrypted_blocks @ [(cipher_value, num_letters)]))"

definition encrypt_message :: "string \<Rightarrow> int \<Rightarrow> int \<Rightarrow> (error + (int \<times> nat) list) option" where
  "encrypt_message plaintext e n =
     (let numeric_str = text_to_numbers plaintext in
      case split_into_blocks numeric_str n of
        None \<Rightarrow> None
      | Some (Inl err) \<Rightarrow> Some (Inl err)
      | Some (Inr blocks) \<Rightarrow> Some (encrypt_message_loop blocks e n []))"

fun decrypt_message_loop :: "(int \<times> nat) list \<Rightarrow> int \<Rightarrow> int \<Rightarrow> string \<Rightarrow> error + string" where
  "decrypt_message_loop [] d n numeric_str = Inr numeric_str"
| "decrypt_message_loop ((cipher_value, num_letters) # encrypted_blocks) d n numeric_str =
     (case modular_exponentiation cipher_value d n of
        Inl err \<Rightarrow> Inl err
      | Inr block_value \<Rightarrow>
          (let expected_length = num_letters * 2 in
           case py_str_limited block_value of
             Inl err \<Rightarrow> Inl err
           | Inr str_value \<Rightarrow>
               (let block_str = zfill expected_length str_value
                in decrypt_message_loop encrypted_blocks d n (numeric_str @ block_str))))"

definition decrypt_message :: "(int \<times> nat) list \<Rightarrow> int \<Rightarrow> int \<Rightarrow> error + string" where
  "decrypt_message encrypted_blocks d n =
     (case decrypt_message_loop encrypted_blocks d n [] of
        Inl err \<Rightarrow> Inl err
      | Inr numeric_str \<Rightarrow> map_numbers_to_text numeric_str)"

section \<open>Primality oracle\<close>

text \<open>
  \<^verbatim>\<open>is_probable_prime\<close> of \<^verbatim>\<open>RSA.py\<close> (lines 344-381). The loop
  \<^verbatim>\<open>while d % 2 == 0\<close> has no other exit and would not end on \<open>d = 0\<close>, so it is a partial
  function.
\<close>

partial_function (option) factor_twos :: "int \<Rightarrow> int \<Rightarrow> (int \<times> int) option" where
  "factor_twos r d = (if d mod 2 = 0 then factor_twos (r + 1) (d div 2) else Some (r, d))"

text \<open>
  The inner \<^verbatim>\<open>for _ in range(r - 1)\<close> with its \<^verbatim>\<open>else\<close>: the result is \<open>True\<close> when the
  loop leaves through \<^verbatim>\<open>break\<close>, and \<open>False\<close> when it runs out, which is where the
  function returns \<^verbatim>\<open>False\<close>. The built-in \<^verbatim>\<open>pow(x, 2, n)\<close> is \<open>x\<^sup>2 mod n\<close>.
\<close>

fun squarings :: "int \<Rightarrow> int \<Rightarrow> nat \<Rightarrow> bool" where
  "squarings x n 0 = False"
| "squarings x n (Suc j) =
     (let x = x ^ 2 mod n in if x = n - 1 then True else squarings x n j)"

text \<open>
  The rounds. The values that the successive calls \<^verbatim>\<open>random.randrange(2, n - 1)\<close>
  return are given by \<open>rnd\<close>: round \<open>j\<close> draws \<open>rnd j\<close>.
\<close>

fun rounds :: "(nat \<Rightarrow> int) \<Rightarrow> nat \<Rightarrow> int \<Rightarrow> int \<Rightarrow> int \<Rightarrow> nat \<Rightarrow> bool" where
  "rounds rnd j n r d 0 = True"
| "rounds rnd j n r d (Suc k) =
     (let a = rnd j; x = a ^ nat d mod n in
      if x = 1 \<or> x = n - 1 then rounds rnd (j + 1) n r d k
      else if squarings x n (nat (r - 1)) then rounds rnd (j + 1) n r d k
      else False)"

text \<open>
  A random source that returns the same value at every call.
\<close>

definition constant_draws :: "int \<Rightarrow> nat \<Rightarrow> int" where
  "constant_draws a j = a"

definition is_probable_prime :: "(nat \<Rightarrow> int) \<Rightarrow> int \<Rightarrow> int \<Rightarrow> bool option" where
  "is_probable_prime rnd n k =
     (if n < 2 then Some False
      else if n = 2 \<or> n = 3 then Some True
      else if n mod 2 = 0 then Some False
      else (case factor_twos 0 (n - 1) of
              None \<Rightarrow> None
            | Some (r, d) \<Rightarrow> Some (rounds rnd 0 n r d (nat k))))"

section \<open>Primes\<close>

text \<open>
  The primes the claims speak of, by trial division.
\<close>

definition is_prime :: "nat \<Rightarrow> bool" where
  "is_prime p = (1 < p \<and> (\<forall>d \<in> {2..<p}. \<not> d dvd p))"

section \<open>Vocabulary of the claims\<close>

text \<open>
  The block that the packer emits for a segment of the digit string: its numeric value
  and its number of two-digit groups. A segment is well-formed for a modulus when it is
  a non-empty sequence of whole groups whose value is below the modulus.
\<close>

definition block_of :: "string \<Rightarrow> int \<times> nat" where
  "block_of g = (int (digits_val g), length g div 2)"

definition seg_ok :: "int \<Rightarrow> string \<Rightarrow> bool" where
  "seg_ok m g = (g \<noteq> [] \<and> even (length g) \<and> int (digits_val g) < m)"

text \<open>
  The two-digit groups of a digit string, from the left; a single trailing digit is not
  a group. \<open>groups_below s m\<close> says that every group, read as a number, is below the
  modulus.
\<close>

fun groups :: "string \<Rightarrow> string list" where
  "groups (a # b # rest) = [a, b] # groups rest"
| "groups [a] = []"
| "groups [] = []"

definition groups_below :: "string \<Rightarrow> int \<Rightarrow> bool" where
  "groups_below s m = (\<forall>g \<in> set (groups s). int (digits_val g) < m)"

text \<open>
  A text made of the upper-case letters \<^verbatim>\<open>A\<close> to \<^verbatim>\<open>Z\<close> only, and the two digits that
  encode one such letter.
\<close>

definition upper_text :: "string \<Rightarrow> bool" where
  "upper_text text = (\<forall>c \<in> set text. 65 \<le> (of_char c :: nat) \<and> (of_char c :: nat) \<le> 90)"

definition letter_digits :: "char \<Rightarrow> string" where
  "letter_digits c = format_02d (int (of_char c) - 65)"

text \<open>
  The Fibonacci numbers, the arguments on which Euclid's algorithm takes the most
  steps for their size.
\<close>

fun fib :: "nat \<Rightarrow> nat" where
  "fib 0 = 0"
| "fib (Suc 0) = 1"
| "fib (Suc (Suc n)) = fib n + fib (Suc n)"

declare modular_exponentiation_loop.simps [simp del]
declare modular_exponentiation_traced_loop.simps [simp del]
declare str_nat.simps [simp del]
declare map_numbers_to_text_loop.simps [simp del]
declare split_into_blocks_inner.simps [simp del]

declare split_into_blocks_outer.simps [code]
declare factor_twos.simps [code]

section \<open>Properties of the modular arithmetic kernel\<close>

lemma and_one_odd: "(e::int) AND 1 \<noteq> 0 \<longleftrightarrow> odd e"
  by (simp add: and_one_eq mod_2_eq_odd)

lemma pow_step_odd:
  assumes "0 < e" "odd e"
  shows "(b::int) ^ nat e = b * (b * b) ^ nat (e div 2)"
proof -
  from assms(2) obtain k where k: "e = 2 * k + 1" by (auto elim: oddE)
  with assms(1) have k0: "0 \<le> k" by simp
  have "nat e = Suc (2 * nat k)" using k k0 by simp
  moreover have "e div 2 = k" using k by simp
  ultimately show ?thesis by (simp add: power_mult power2_eq_square)
qed

lemma pow_step_even:
  assumes "0 < e" "even e"
  shows "(b::int) ^ nat e = (b * b) ^ nat (e div 2)"
proof -
  from assms obtain k where k: "e = 2 * k" by (auto elim: evenE)
  with assms have "0 \<le> k" by simp
  have "nat e = 2 * nat k" using k \<open>0 \<le> k\<close> by (simp add: nat_mult_distrib)
  moreover have "e div 2 = k" using k by simp
  ultimately show ?thesis by (simp add: power_mult power2_eq_square)
qed


lemma mod_rb: "((r * b) mod m * ((b * b) mod m) ^ n) mod m = (r * (b * (b * b) ^ n)) mod (m::int)"
proof -
  have "((r * b) mod m * ((b * b) mod m) ^ n) mod m = ((r * b) mod m * (((b * b) mod m) ^ n mod m)) mod m"
    by (simp add: mod_mult_right_eq)
  also have "\<dots> = ((r * b) mod m * ((b * b) ^ n mod m)) mod m"
    by (simp add: power_mod)
  also have "\<dots> = ((r * b) * (b * b) ^ n) mod m"
    by (simp add: mod_mult_eq)
  finally show ?thesis by (simp add: mult.assoc)
qed

lemma mod_r: "(r * ((b * b) mod m) ^ n) mod m = (r * (b * b) ^ n) mod (m::int)"
proof -
  have "(r * ((b * b) mod m) ^ n) mod m = (r * (((b * b) mod m) ^ n mod m)) mod m"
    by (simp add: mod_mult_right_eq)
  also have "\<dots> = (r * ((b * b) ^ n mod m)) mod m"
    by (simp add: power_mod)
  finally show ?thesis by (simp add: mod_mult_right_eq)
qed

lemma modular_exponentiation_loop_eq:
  "modular_exponentiation_loop r b e m = (if e > 0 then (r * b ^ nat e) mod m else r)"
proof (induction r b e m rule: modular_exponentiation_loop.induct)
  case (1 r b e m)
  show ?case
  proof (cases "e > 0")
    case False
    then show ?thesis by (subst modular_exponentiation_loop.simps) simp
  next
    case pos: True
    let ?r = "if e AND 1 \<noteq> 0 then (r * b) mod m else r"
    let ?b = "(b * b) mod m"
    have db: "drop_bit 1 e = e div 2" by (simp add: drop_bit_eq_div)
    have unf: "modular_exponentiation_loop r b e m
        = modular_exponentiation_loop ?r ?b (e div 2) m"
      using pos by (subst modular_exponentiation_loop.simps) (simp add: drop_bit_eq_div)
    have ih: "modular_exponentiation_loop ?r ?b (e div 2) m
        = (if e div 2 > 0 then (?r * ?b ^ nat (e div 2)) mod m else ?r)"
      using "1.IH" [OF pos] by (simp only: db)
    show ?thesis
    proof (cases "odd e")
      case True
      have r: "?r = (r * b) mod m" using True by (simp add: and_one_odd)
      show ?thesis
      proof (cases "e div 2 > 0")
        case True
        have "modular_exponentiation_loop r b e m = ((r * b) mod m * ?b ^ nat (e div 2)) mod m"
          using unf ih r True by simp
        also have "\<dots> = (r * (b * (b * b) ^ nat (e div 2))) mod m" by (rule mod_rb)
        also have "\<dots> = (r * b ^ nat e) mod m" using pow_step_odd [OF pos \<open>odd e\<close>, of b] by simp
        finally show ?thesis using pos by simp
      next
        case False
        with pos \<open>odd e\<close> have "e = 1" by presburger
        then show ?thesis using unf ih r by simp
      qed
    next
      case False
      then have ev: "even e" by simp
      have r: "?r = r" using ev by (simp add: and_one_odd)
      have d: "e div 2 > 0" using pos ev by presburger
      have "modular_exponentiation_loop r b e m = (r * ?b ^ nat (e div 2)) mod m"
        using unf ih r d by simp
      also have "\<dots> = (r * (b * b) ^ nat (e div 2)) mod m" by (rule mod_r)
      also have "\<dots> = (r * b ^ nat e) mod m" using pow_step_even [OF pos ev, of b] by simp
      finally show ?thesis using pos by simp
    qed
  qed
qed

lemma modular_exponentiation_traced_loop_eq:
  "modular_exponentiation_traced_loop r b e m = (if e > 0 then (r * b ^ nat e) mod m else r)"
proof (induction r b e m rule: modular_exponentiation_traced_loop.induct)
  case (1 r b e m)
  show ?case
  proof (cases "e > 0")
    case False
    then show ?thesis by (subst modular_exponentiation_traced_loop.simps) simp
  next
    case pos: True
    let ?r = "if e AND 1 \<noteq> 0 then (r * b) mod m else r"
    let ?b = "if e div 2 > 0 then (b * b) mod m else b"
    have unf: "modular_exponentiation_traced_loop r b e m
        = modular_exponentiation_traced_loop ?r ?b (e div 2) m"
      using pos by (subst modular_exponentiation_traced_loop.simps) (simp add: drop_bit_eq_div Let_def)
    have ih: "modular_exponentiation_traced_loop ?r ?b (e div 2) m
        = (if e div 2 > 0 then (?r * ?b ^ nat (e div 2)) mod m else ?r)"
      using "1.IH" [OF pos refl refl refl] by (simp only: drop_bit_eq_div power_one_right)
    show ?thesis
    proof (cases "odd e")
      case True
      have r: "?r = (r * b) mod m" using True by (simp add: and_one_odd)
      show ?thesis
      proof (cases "e div 2 > 0")
        case True
        have "modular_exponentiation_traced_loop r b e m
                = ((r * b) mod m * ((b * b) mod m) ^ nat (e div 2)) mod m"
          using unf ih r True by simp
        also have "\<dots> = (r * (b * (b * b) ^ nat (e div 2))) mod m" by (rule mod_rb)
        also have "\<dots> = (r * b ^ nat e) mod m" using pow_step_odd [OF pos \<open>odd e\<close>, of b] by simp
        finally show ?thesis using pos by simp
      next
        case False
        with pos \<open>odd e\<close> have "e = 1" by presburger
        then show ?thesis using unf ih r by simp
      qed
    next
      case False
      then have ev: "even e" by simp
      have r: "?r = r" using ev by (simp add: and_one_odd)
      have d: "e div 2 > 0" using pos ev by presburger
      have "modular_exponentiation_traced_loop r b e m = (r * ((b * b) mod m) ^ nat (e div 2)) mod m"
        using unf ih r d by simp
      also have "\<dots> = (r * (b * b) ^ nat (e div 2)) mod m" by (rule mod_r)
      also have "\<dots> = (r * b ^ nat e) mod m" using pow_step_even [OF pos ev, of b] by simp
      finally show ?thesis using pos by simp
    qed
  qed
qed

lemma modular_exponentiation_eq:
  "m \<noteq> 0 \<Longrightarrow> modular_exponentiation b e m = Inr (if e > 0 then b ^ nat e mod m else 1)"
  by (simp add: modular_exponentiation_def modular_exponentiation_loop_eq power_mod)

lemma modular_exponentiation_traced_eq:
  "m \<noteq> 0 \<Longrightarrow> modular_exponentiation_traced b e m = Inr (if e > 0 then b ^ nat e mod m else 1)"
  by (simp add: modular_exponentiation_traced_def modular_exponentiation_traced_loop_eq power_mod)

subsection \<open>Extended Euclid within the frame budget\<close>

lemma extended_gcd_base [simp]: "extended_gcd (Suc frames) a 0 = Inr (a, 1, 0)"
  by simp

lemma extended_gcd_test_rsa_base [simp]:
  "extended_gcd_test_rsa (Suc frames) a 0 = Inr (\<bar>a\<bar>, if a \<ge> 0 then 1 else - 1, 0)"
  by simp

lemma extended_gcd_error: "extended_gcd frames a b = Inl err \<Longrightarrow> err = RecursionError"
  by (induction frames a b rule: extended_gcd.induct) (auto split: if_splits sum.splits)

lemma extended_gcd_test_rsa_error:
  "extended_gcd_test_rsa frames a b = Inl err \<Longrightarrow> err = RecursionError"
  by (induction frames a b rule: extended_gcd_test_rsa.induct) (auto split: if_splits sum.splits)

lemma extended_gcd_more_frames:
  "extended_gcd frames a b = Inr r \<Longrightarrow> extended_gcd (frames + j) a b = Inr r"
  by (induction frames a b arbitrary: r rule: extended_gcd.induct)
     (auto split: if_splits sum.splits)

lemma extended_gcd_test_rsa_more_frames:
  "extended_gcd_test_rsa frames a b = Inr r \<Longrightarrow> extended_gcd_test_rsa (frames + j) a b = Inr r"
  by (induction frames a b arbitrary: r rule: extended_gcd_test_rsa.induct)
     (auto split: if_splits sum.splits)

lemma bezout_step:
  assumes "b * x1 + (a mod b) * y1 = (g::int)"
  shows "a * y1 + b * (x1 - (a div b) * y1) = g"
proof -
  have "a * y1 + b * (x1 - (a div b) * y1) = b * x1 + (a - b * (a div b)) * y1"
    by (simp add: algebra_simps)
  also have "a - b * (a div b) = a mod b" by (simp add: minus_mult_div_eq_mod)
  finally show ?thesis using assms by simp
qed

lemma gcd_step: "gcd b (a mod b) = gcd (a::int) b"
  by (metis gcd.commute gcd_red_int)

lemma extended_gcd_bezout:
  "extended_gcd frames a b = Inr (g, x, y) \<Longrightarrow> a * x + b * y = g"
proof (induction frames a b arbitrary: g x y rule: extended_gcd.induct)
  case (1 a b)
  then show ?case by simp
next
  case (2 frames a b)
  show ?case
  proof (cases "b = 0")
    case True
    with "2.prems" show ?thesis by simp
  next
    case False
    with "2.prems" obtain g' x1 y1
      where rec: "extended_gcd frames b (a mod b) = Inr (g', x1, y1)"
        and res: "g = g'" "x = y1" "y = x1 - (a div b) * y1"
      by (auto split: sum.splits)
    from "2.IH" [OF False rec] have "b * x1 + (a mod b) * y1 = g'" .
    then show ?thesis unfolding res by (rule bezout_step)
  qed
qed

lemma extended_gcd_abs:
  "extended_gcd frames a b = Inr (g, x, y) \<Longrightarrow> \<bar>g\<bar> = gcd a b"
proof (induction frames a b arbitrary: g x y rule: extended_gcd.induct)
  case (1 a b)
  then show ?case by simp
next
  case (2 frames a b)
  show ?case
  proof (cases "b = 0")
    case True
    with "2.prems" show ?thesis by auto
  next
    case False
    with "2.prems" obtain g' x1 y1
      where rec: "extended_gcd frames b (a mod b) = Inr (g', x1, y1)" and res: "g = g'"
      by (auto split: sum.splits)
    from "2.IH" [OF False rec] have "\<bar>g'\<bar> = gcd b (a mod b)" .
    then show ?thesis using res by (simp add: gcd_step)
  qed
qed

lemma extended_gcd_nonneg:
  "0 \<le> a \<Longrightarrow> 0 \<le> b \<Longrightarrow> extended_gcd frames a b = Inr (g, x, y) \<Longrightarrow> 0 \<le> g"
proof (induction frames a b arbitrary: g x y rule: extended_gcd.induct)
  case (1 a b)
  then show ?case by simp
next
  case (2 frames a b)
  show ?case
  proof (cases "b = 0")
    case True
    with "2.prems" show ?thesis by auto
  next
    case False
    with "2.prems" obtain g' x1 y1
      where rec: "extended_gcd frames b (a mod b) = Inr (g', x1, y1)" and res: "g = g'"
      by (auto split: sum.splits)
    have "0 \<le> a mod b" using False "2.prems"(2) by simp
    from "2.IH" [OF False "2.prems"(2) this rec] res show ?thesis by simp
  qed
qed

lemma extended_gcd_pos_modulus:
  assumes "0 < b" and "extended_gcd frames a b = Inr (g, x, y)"
  shows "g = gcd a b"
proof -
  obtain f where f: "frames = Suc f" using assms(2) by (cases frames) auto
  from assms f obtain g' x1 y1
    where rec: "extended_gcd f b (a mod b) = Inr (g', x1, y1)" and res: "g = g'"
    by (auto split: sum.splits)
  have "0 \<le> a mod b" using assms(1) by simp
  then have "0 \<le> g'" using extended_gcd_nonneg [OF _ _ rec] assms(1) by simp
  then show ?thesis using extended_gcd_abs [OF assms(2)] res by simp
qed

lemma extended_gcd_test_rsa_bezout:
  "extended_gcd_test_rsa frames a b = Inr (g, x, y) \<Longrightarrow> a * x + b * y = g"
proof (induction frames a b arbitrary: g x y rule: extended_gcd_test_rsa.induct)
  case (1 a b)
  then show ?case by simp
next
  case (2 frames a b)
  show ?case
  proof (cases "b = 0")
    case True
    with "2.prems" show ?thesis by (auto split: if_splits)
  next
    case False
    with "2.prems" obtain g' x1 y1
      where rec: "extended_gcd_test_rsa frames b (a mod b) = Inr (g', x1, y1)"
        and res: "g = g'" "x = y1" "y = x1 - (a div b) * y1"
      by (auto split: sum.splits)
    from "2.IH" [OF False rec] have "b * x1 + (a mod b) * y1 = g'" .
    then show ?thesis unfolding res by (rule bezout_step)
  qed
qed

lemma extended_gcd_test_rsa_gcd:
  "extended_gcd_test_rsa frames a b = Inr (g, x, y) \<Longrightarrow> g = gcd a b"
proof (induction frames a b arbitrary: g x y rule: extended_gcd_test_rsa.induct)
  case (1 a b)
  then show ?case by simp
next
  case (2 frames a b)
  show ?case
  proof (cases "b = 0")
    case True
    with "2.prems" show ?thesis by auto
  next
    case False
    with "2.prems" obtain g' x1 y1
      where rec: "extended_gcd_test_rsa frames b (a mod b) = Inr (g', x1, y1)" and res: "g = g'"
      by (auto split: sum.splits)
    from "2.IH" [OF False rec] have "g' = gcd b (a mod b)" .
    then show ?thesis using res by (simp add: gcd_step)
  qed
qed

lemma extended_gcd_test_rsa_correct:
  "extended_gcd_test_rsa frames a b = Inr (g, x, y) \<Longrightarrow> g = gcd a b \<and> a * x + b * y = g"
  using extended_gcd_test_rsa_gcd extended_gcd_test_rsa_bezout by blast

lemma extended_gcd_correct_nonneg:
  "0 \<le> a \<Longrightarrow> 0 \<le> b \<Longrightarrow> extended_gcd frames a b = Inr (g, x, y)
     \<Longrightarrow> g = gcd a b \<and> a * x + b * y = g"
  using extended_gcd_abs extended_gcd_nonneg extended_gcd_bezout
  by (metis abs_of_nonneg)

subsection \<open>Frames that suffice\<close>

lemma remainder_halves_pos:
  assumes "0 < r" and "r < (b::int)"
  shows "2 * (b mod r) < b"
proof -
  have q: "1 \<le> b div r" using assms by (simp add: pos_imp_zdiv_pos_iff int_one_le_iff_zero_less)
  have "r * 1 \<le> r * (b div r)" using assms(1) q by (intro mult_left_mono) simp_all
  moreover have "r * (b div r) + b mod r = b" by simp
  moreover have "b mod r < r" using assms(1) by simp
  ultimately show ?thesis by linarith
qed

lemma remainder_halves:
  assumes "b \<noteq> 0" and "a mod b \<noteq> (0::int)"
  shows "2 * \<bar>b mod (a mod b)\<bar> < \<bar>b\<bar>"
proof (cases "0 < b")
  case True
  then have "0 \<le> a mod b" "a mod b < b" by simp_all
  with assms(2) have r: "0 < a mod b" by simp
  have "0 \<le> b mod (a mod b)" using r by simp
  with remainder_halves_pos [OF r \<open>a mod b < b\<close>] True show ?thesis by simp
next
  case False
  with assms(1) have neg: "b < 0" by simp
  then have "a mod b \<le> 0" "b < a mod b" by simp_all
  with assms(2) have r: "0 < - (a mod b)" "- (a mod b) < - b" by simp_all
  have "(- b) mod (- (a mod b)) = - (b mod (a mod b))" by (rule mod_minus_minus)
  with remainder_halves_pos [OF r] have "2 * (- (b mod (a mod b))) < - b" by simp
  moreover have "b mod (a mod b) \<le> 0" using r(1) by simp
  ultimately show ?thesis using neg by simp
qed

lemma extended_gcd_returns:
  "\<bar>b\<bar> < 2 ^ k \<Longrightarrow> \<exists>r. extended_gcd (2 * k + 1) a b = Inr r"
proof (induction k arbitrary: a b)
  case 0
  then have "b = 0" by simp
  then show ?case by simp
next
  case (Suc k)
  show ?case
  proof (cases "b = 0")
    case True
    then show ?thesis by simp
  next
    case b: False
    show ?thesis
    proof (cases "a mod b = 0")
      case True
      with b show ?thesis by simp
    next
      case r1: False
      have "2 * \<bar>b mod (a mod b)\<bar> < \<bar>b\<bar>" using b r1 by (rule remainder_halves)
      with Suc.prems have "\<bar>b mod (a mod b)\<bar> < 2 ^ k" by simp
      from Suc.IH [OF this] obtain r
        where "extended_gcd (2 * k + 1) (a mod b) (b mod (a mod b)) = Inr r" by blast
      then show ?thesis using b r1 by (cases r) simp
    qed
  qed
qed

lemma extended_gcd_test_rsa_returns:
  "\<bar>b\<bar> < 2 ^ k \<Longrightarrow> \<exists>r. extended_gcd_test_rsa (2 * k + 1) a b = Inr r"
proof (induction k arbitrary: a b)
  case 0
  then have "b = 0" by simp
  then show ?case by simp
next
  case (Suc k)
  show ?case
  proof (cases "b = 0")
    case True
    then show ?thesis by simp
  next
    case b: False
    show ?thesis
    proof (cases "a mod b = 0")
      case True
      with b show ?thesis by simp
    next
      case r1: False
      have "2 * \<bar>b mod (a mod b)\<bar> < \<bar>b\<bar>" using b r1 by (rule remainder_halves)
      with Suc.prems have "\<bar>b mod (a mod b)\<bar> < 2 ^ k" by simp
      from Suc.IH [OF this] obtain r
        where "extended_gcd_test_rsa (2 * k + 1) (a mod b) (b mod (a mod b)) = Inr r" by blast
      then show ?thesis using b r1 by (cases r) simp
    qed
  qed
qed

lemma extended_gcd_enough_frames:
  assumes "\<bar>b\<bar> < 2 ^ k" and "2 * k + 1 \<le> frames"
  shows "\<exists>g x y. extended_gcd frames a b = Inr (g, x, y)"
proof -
  from extended_gcd_returns [OF assms(1)] obtain r
    where "extended_gcd (2 * k + 1) a b = Inr r" by blast
  from extended_gcd_more_frames [OF this, of "frames - (2 * k + 1)"] assms(2)
  have "extended_gcd frames a b = Inr r" by simp
  then show ?thesis by (cases r) auto
qed

lemma extended_gcd_test_rsa_enough_frames:
  assumes "\<bar>b\<bar> < 2 ^ k" and "2 * k + 1 \<le> frames"
  shows "\<exists>g x y. extended_gcd_test_rsa frames a b = Inr (g, x, y)"
proof -
  from extended_gcd_test_rsa_returns [OF assms(1)] obtain r
    where "extended_gcd_test_rsa (2 * k + 1) a b = Inr r" by blast
  from extended_gcd_test_rsa_more_frames [OF this, of "frames - (2 * k + 1)"] assms(2)
  have "extended_gcd_test_rsa frames a b = Inr r" by simp
  then show ?thesis by (cases r) auto
qed

lemma inverse_from_bezout:
  assumes "2 \<le> m" and "a * x + m * y = (1::int)"
  shows "0 \<le> x mod m \<and> x mod m < m \<and> (a * (x mod m)) mod m = 1"
proof -
  have "(a * (x mod m)) mod m = (a * x) mod m" by (simp add: mod_mult_right_eq)
  also have "\<dots> = (a * x + m * y) mod m" by simp
  also have "\<dots> = 1" using assms by simp
  finally show ?thesis using assms(1) by simp
qed

lemma modinv_coprime:
  assumes "2 \<le> m" and "gcd a m = 1" and "m < 2 ^ k" and "2 * k + 1 \<le> frames"
  shows "\<exists>x. modinv frames a m = Inr x \<and> 0 \<le> x \<and> x < m \<and> (a * x) mod m = 1"
proof -
  have "\<bar>m\<bar> < 2 ^ k" using assms(1,3) by simp
  from extended_gcd_enough_frames [OF this assms(4)] obtain g x y
    where r: "extended_gcd frames a m = Inr (g, x, y)" by blast
  have "g = 1" using extended_gcd_pos_modulus [OF _ r] assms(1,2) by simp
  moreover have "a * x + m * y = g" using extended_gcd_bezout [OF r] .
  ultimately show ?thesis
    using inverse_from_bezout [OF assms(1), of a x y] r assms(1) by (simp add: modinv_def)
qed

lemma modular_inverse_coprime:
  assumes "2 \<le> m" and "gcd a m = 1" and "m < 2 ^ k" and "2 * k + 1 \<le> frames"
  shows "\<exists>x. modular_inverse frames a m = Inr x \<and> 0 \<le> x \<and> x < m \<and> (a * x) mod m = 1"
proof -
  have "\<bar>m\<bar> < 2 ^ k" using assms(1,3) by simp
  from extended_gcd_test_rsa_enough_frames [OF this assms(4)] obtain g x y
    where r: "extended_gcd_test_rsa frames a m = Inr (g, x, y)" by blast
  have "g = 1" using extended_gcd_test_rsa_gcd [OF r] assms(2) by simp
  moreover have "a * x + m * y = g" using extended_gcd_test_rsa_bezout [OF r] .
  ultimately show ?thesis
    using inverse_from_bezout [OF assms(1), of a x y] r assms(1)
    by (simp add: modular_inverse_def)
qed

lemma modinv_not_coprime:
  assumes "gcd a m \<noteq> 1" and "\<bar>m\<bar> < 2 ^ k" and "2 * k + 1 \<le> frames"
  shows "modinv frames a m = Inl ValueError"
proof -
  from extended_gcd_enough_frames [OF assms(2,3)] obtain g x y
    where r: "extended_gcd frames a m = Inr (g, x, y)" by blast
  have "g \<noteq> 1" using extended_gcd_abs [OF r] assms(1) by auto
  then show ?thesis using r by (simp add: modinv_def)
qed

lemma modular_inverse_not_coprime:
  assumes "gcd a m \<noteq> 1" and "\<bar>m\<bar> < 2 ^ k" and "2 * k + 1 \<le> frames"
  shows "modular_inverse frames a m = Inl ValueError"
proof -
  from extended_gcd_test_rsa_enough_frames [OF assms(2,3)] obtain g x y
    where r: "extended_gcd_test_rsa frames a m = Inr (g, x, y)" by blast
  have "g \<noteq> 1" using extended_gcd_test_rsa_gcd [OF r] assms(1) by auto
  then show ?thesis using r by (simp add: modular_inverse_def)
qed

lemma gcd_17_3120: "gcd (17::int) 3120 = 1"
  by code_simp

lemma gcd_2_26: "gcd (2::int) 26 = 2"
  by code_simp

subsection \<open>Inputs that exhaust the recursion limit\<close>

lemma fib_pos: "0 < n \<Longrightarrow> 0 < fib n"
  by (induction n rule: fib.induct) simp_all

lemma fib_less_next: "2 \<le> n \<Longrightarrow> fib n < fib (Suc n)"
proof -
  assume "2 \<le> n"
  then obtain j where n: "n = Suc (Suc j)" by (metis add_2_eq_Suc le_Suc_ex)
  have "0 < fib (Suc j)" by (rule fib_pos) simp
  then show ?thesis unfolding n by simp
qed

lemma fib_ge_2: "3 \<le> n \<Longrightarrow> 2 \<le> fib n"
proof (induction n rule: fib.induct)
  case (3 n)
  then have "1 \<le> n" by simp
  then have "0 < fib n" "0 < fib (Suc n)" by (simp_all add: fib_pos)
  then show ?case by simp
qed simp_all

lemma fib_coprime: "gcd (fib n) (fib (Suc n)) = 1"
proof (induction n)
  case 0
  show ?case by simp
next
  case (Suc n)
  have "gcd (fib (Suc n)) (fib (Suc (Suc n))) = gcd (fib (Suc n)) (fib n + fib (Suc n))" by simp
  also have "\<dots> = gcd (fib (Suc n)) (fib (Suc n) + fib n)" by (simp only: add.commute)
  also have "\<dots> = gcd (fib (Suc n)) (fib n)" by (rule gcd_add2)
  also have "\<dots> = 1" using Suc by (simp add: gcd.commute)
  finally show ?case .
qed

lemma fib_coprime_int: "gcd (int (fib n)) (int (fib (Suc n))) = 1"
  using fib_coprime [of n] by (metis gcd_int_int_eq of_nat_1)

lemma fib_mod_next: "2 \<le> n \<Longrightarrow> int (fib (Suc (Suc n))) mod int (fib (Suc n)) = int (fib n)"
proof -
  assume n: "2 \<le> n"
  have "fib (Suc (Suc n)) mod fib (Suc n) = fib n mod fib (Suc n)" by simp
  also have "\<dots> = fib n" using fib_less_next [OF n] by simp
  finally show ?thesis by (metis zmod_int)
qed

lemma extended_gcd_fib_deep:
  "2 \<le> n \<Longrightarrow> frames < n \<Longrightarrow>
   extended_gcd frames (int (fib (Suc n))) (int (fib n)) = Inl RecursionError"
proof (induction n arbitrary: frames)
  case 0
  then show ?case by simp
next
  case (Suc n)
  show ?case
  proof (cases frames)
    case 0
    then show ?thesis by simp
  next
    case (Suc f)
    have pos: "int (fib (Suc n)) \<noteq> 0" using fib_pos [of "Suc n"] by simp
    show ?thesis
    proof (cases "n = 1")
      case True
      with Suc.prems \<open>frames = Suc f\<close> have "f = 0" by simp
      with True \<open>frames = Suc f\<close> show ?thesis by (simp add: numeral_2_eq_2)
    next
      case False
      with Suc.prems(1) have n: "2 \<le> n" by simp
      from Suc.prems(2) \<open>frames = Suc f\<close> have f: "f < n" by simp
      have "extended_gcd f (int (fib (Suc n))) (int (fib n)) = Inl RecursionError"
        using Suc.IH [OF n f] .
      then show ?thesis
        using pos fib_mod_next [OF n] \<open>frames = Suc f\<close> by (simp del: fib.simps)
    qed
  qed
qed

lemma extended_gcd_test_rsa_fib_deep:
  "2 \<le> n \<Longrightarrow> frames < n \<Longrightarrow>
   extended_gcd_test_rsa frames (int (fib (Suc n))) (int (fib n)) = Inl RecursionError"
proof (induction n arbitrary: frames)
  case 0
  then show ?case by simp
next
  case (Suc n)
  show ?case
  proof (cases frames)
    case 0
    then show ?thesis by simp
  next
    case (Suc f)
    have pos: "int (fib (Suc n)) \<noteq> 0" using fib_pos [of "Suc n"] by simp
    show ?thesis
    proof (cases "n = 1")
      case True
      with Suc.prems \<open>frames = Suc f\<close> have "f = 0" by simp
      with True \<open>frames = Suc f\<close> show ?thesis by (simp add: numeral_2_eq_2)
    next
      case False
      with Suc.prems(1) have n: "2 \<le> n" by simp
      from Suc.prems(2) \<open>frames = Suc f\<close> have f: "f < n" by simp
      have "extended_gcd_test_rsa f (int (fib (Suc n))) (int (fib n)) = Inl RecursionError"
        using Suc.IH [OF n f] .
      then show ?thesis
        using pos fib_mod_next [OF n] \<open>frames = Suc f\<close> by (simp del: fib.simps)
    qed
  qed
qed

lemma int_fib_mod_next: "2 \<le> n \<Longrightarrow> int (fib n) mod int (fib (Suc n)) = int (fib n)"
proof -
  assume "2 \<le> n"
  from fib_less_next [OF this] have "fib n mod fib (Suc n) = fib n" by simp
  then show ?thesis by (metis zmod_int)
qed

lemma modinv_fib_deep:
  assumes "2 \<le> n" and "frames \<le> n"
  shows "modinv frames (int (fib n)) (int (fib (Suc n))) = Inl RecursionError"
    and "modular_inverse frames (int (fib n)) (int (fib (Suc n))) = Inl RecursionError"
proof -
  have pos: "int (fib (Suc n)) \<noteq> 0" using fib_pos [of "Suc n"] by simp
  have a: "extended_gcd frames (int (fib n)) (int (fib (Suc n))) = Inl RecursionError"
  proof (cases frames)
    case 0
    then show ?thesis by simp
  next
    case (Suc f)
    with assms(2) have "f < n" by simp
    from extended_gcd_fib_deep [OF assms(1) this] pos int_fib_mod_next [OF assms(1)] Suc
    show ?thesis by (simp del: fib.simps)
  qed
  have b: "extended_gcd_test_rsa frames (int (fib n)) (int (fib (Suc n))) = Inl RecursionError"
  proof (cases frames)
    case 0
    then show ?thesis by simp
  next
    case (Suc f)
    with assms(2) have "f < n" by simp
    from extended_gcd_test_rsa_fib_deep [OF assms(1) this] pos int_fib_mod_next [OF assms(1)] Suc
    show ?thesis by (simp del: fib.simps)
  qed
  show "modinv frames (int (fib n)) (int (fib (Suc n))) = Inl RecursionError"
    using a by (simp add: modinv_def)
  show "modular_inverse frames (int (fib n)) (int (fib (Suc n))) = Inl RecursionError"
    using b by (simp add: modular_inverse_def)
qed

section \<open>Decimal digit strings\<close>

lemma digit_string_simps [simp]:
  "digit_string []"
  "digit_string (c # s) \<longleftrightarrow> is_digit c \<and> digit_string s"
  "digit_string (s @ t) \<longleftrightarrow> digit_string s \<and> digit_string t"
  by (auto simp: digit_string_def)

lemma digit_string_take: "digit_string s \<Longrightarrow> digit_string (take n s)"
  by (auto simp: digit_string_def dest: in_set_takeD)

lemma digit_string_drop: "digit_string s \<Longrightarrow> digit_string (drop n s)"
  by (auto simp: digit_string_def dest: in_set_dropD)

lemma digit_string_replicate_zero [simp]: "digit_string (replicate k CHR ''0'')"
  by (simp add: digit_string_def is_digit_def)

lemma of_char_digit_char: "d < 10 \<Longrightarrow> (of_char (digit_char d) :: nat) = 48 + d"
  by (simp add: digit_char_def)

lemma is_digit_digit_char: "d < 10 \<Longrightarrow> is_digit (digit_char d)"
  by (simp add: is_digit_def of_char_digit_char)

lemma digit_val_digit_char: "d < 10 \<Longrightarrow> digit_val (digit_char d) = d"
  by (simp add: digit_val_def of_char_digit_char)

lemma digit_val_less: "is_digit c \<Longrightarrow> digit_val c < 10"
  by (auto simp: is_digit_def digit_val_def)

lemma digit_val_inj: "is_digit c \<Longrightarrow> is_digit c' \<Longrightarrow> digit_val c = digit_val c' \<Longrightarrow> c = c'"
proof -
  assume a: "is_digit c" "is_digit c'" "digit_val c = digit_val c'"
  then have "(of_char c :: nat) - 48 = of_char c' - 48"
    and "48 \<le> (of_char c :: nat)" and "48 \<le> (of_char c' :: nat)"
    unfolding is_digit_def digit_val_def by blast+
  then have "(of_char c :: nat) = of_char c'" by linarith
  then show "c = c'" by simp
qed

lemma digits_val_Nil [simp]: "digits_val [] = 0"
  by (simp add: digits_val_def)

lemma digits_val_snoc [simp]: "digits_val (s @ [c]) = 10 * digits_val s + digit_val c"
  by (simp add: digits_val_def)

lemma digits_val_bound: "digit_string s \<Longrightarrow> digits_val s < 10 ^ length s"
proof (induction s rule: rev_induct)
  case Nil
  then show ?case by simp
next
  case (snoc c s)
  then have "digits_val s < 10 ^ length s" "digit_val c < 10" by (simp_all add: digit_val_less)
  then have "10 * digits_val s + digit_val c < 10 * 10 ^ length s" by linarith
  then show ?case by simp
qed

lemma digits_val_inj:
  "digit_string s \<Longrightarrow> digit_string t \<Longrightarrow> length s = length t
     \<Longrightarrow> digits_val s = digits_val t \<Longrightarrow> s = t"
proof (induction s arbitrary: t rule: rev_induct)
  case Nil
  then show ?case by simp
next
  case (snoc c s)
  from snoc.prems(3) obtain t' c' where t: "t = t' @ [c']"
    by (cases t rule: rev_cases) auto
  from snoc.prems t have d: "is_digit c" "is_digit c'" "digit_string s" "digit_string t'"
    and l: "length s = length t'" by simp_all
  from snoc.prems(4) t have "10 * digits_val s + digit_val c = 10 * digits_val t' + digit_val c'"
    by simp
  with digit_val_less [OF d(1)] digit_val_less [OF d(2)]
  have "digits_val s = digits_val t'" "digit_val c = digit_val c'" by presburger+
  with snoc.IH [OF d(3,4) l] digit_val_inj [OF d(1,2)] t show ?case by simp
qed

lemma digits_val_append: "digits_val (s @ t) = digits_val s * 10 ^ length t + digits_val t"
  by (induction t rule: rev_induct) (simp_all add: algebra_simps flip: append_assoc)

lemma digits_val_zeros [simp]: "digits_val (replicate k CHR ''0'') = 0"
proof (induction k)
  case 0
  show ?case by simp
next
  case (Suc k)
  have "replicate (Suc k) CHR ''0'' = replicate k CHR ''0'' @ [CHR ''0'']"
    by (simp add: replicate_append_same)
  then have "digits_val (replicate (Suc k) CHR ''0'') = 10 * digits_val (replicate k CHR ''0'') + digit_val CHR ''0''"
    by (simp only: digits_val_snoc)
  with Suc show ?case by (simp add: digit_val_def)
qed

lemma str_nat_small: "n < 10 \<Longrightarrow> str_nat n = [digit_char n]"
  by (subst str_nat.simps) simp

lemma str_nat_large: "\<not> n < 10 \<Longrightarrow> str_nat n = str_nat (n div 10) @ [digit_char (n mod 10)]"
  by (subst str_nat.simps) simp

lemma str_nat_digits: "digit_string (str_nat n)"
proof (induction n rule: str_nat.induct)
  case (1 n)
  then show ?case
    by (cases "n < 10") (simp_all add: str_nat_small str_nat_large is_digit_digit_char)
qed

lemma str_nat_val: "digits_val (str_nat n) = n"
proof (induction n rule: str_nat.induct)
  case (1 n)
  then show ?case
    by (cases "n < 10") (simp_all add: str_nat_small str_nat_large digit_val_digit_char digits_val_def)
qed

lemma str_nat_nonempty: "str_nat n \<noteq> []"
  by (cases "n < 10") (simp_all add: str_nat_small str_nat_large)

lemma str_nat_length: "n < 10 ^ k \<Longrightarrow> 0 < k \<Longrightarrow> length (str_nat n) \<le> k"
proof (induction n arbitrary: k rule: str_nat.induct)
  case (1 n)
  show ?case
  proof (cases "n < 10")
    case True
    with "1.prems" show ?thesis by (simp add: str_nat_small)
  next
    case False
    from "1.prems" obtain k' where k: "k = Suc k'" by (cases k) auto
    with False "1.prems" have "0 < k'" by (cases k') auto
    moreover from "1.prems" k have "n div 10 < 10 ^ k'" by (simp add: less_mult_imp_div_less)
    ultimately have "length (str_nat (n div 10)) \<le> k'" using "1.IH" [OF False] by blast
    then show ?thesis using False k by (simp add: str_nat_large)
  qed
qed

lemma str_nat_hd_digit: "str_nat n = c # rest \<Longrightarrow> is_digit c"
  using str_nat_digits [of n] by simp

lemma is_digit_not_sign: "is_digit c \<Longrightarrow> c \<noteq> CHR ''+'' \<and> c \<noteq> CHR ''-''"
  by (auto simp: is_digit_def)

lemma zfill_str_nat:
  "length (str_nat n) \<le> w \<Longrightarrow> zfill w (str_nat n) = replicate (w - length (str_nat n)) CHR ''0'' @ str_nat n"
proof (cases "str_nat n")
  case Nil
  then show ?thesis using str_nat_nonempty by blast
next
  case (Cons c rest)
  assume "length (str_nat n) \<le> w"
  with Cons is_digit_not_sign [OF str_nat_hd_digit [OF Cons]]
  show ?thesis by (auto simp: zfill_def)
qed

lemma py_str_int [simp]: "py_str (int n) = str_nat n"
  by (simp add: py_str_def)

lemma zfill_roundtrip:
  assumes "digit_string s" and "s \<noteq> []"
  shows "zfill (length s) (py_str (int (digits_val s))) = s"
proof -
  let ?t = "str_nat (digits_val s)"
  from assms(2) have pos: "0 < length s" by simp
  have len: "length ?t \<le> length s"
    using str_nat_length [OF digits_val_bound [OF assms(1)] pos] .
  let ?u = "replicate (length s - length ?t) CHR ''0'' @ ?t"
  have "digit_string ?u" by (simp add: str_nat_digits)
  moreover have "length ?u = length s" using len by simp
  moreover have "digits_val ?u = digits_val s" by (simp add: digits_val_append str_nat_val)
  ultimately have "?u = s" using digits_val_inj assms(1) by blast
  then show ?thesis using zfill_str_nat [OF len] by simp
qed

lemma py_int_digits:
  "digit_string s \<Longrightarrow> s \<noteq> [] \<Longrightarrow> length s \<le> int_max_str_digits
     \<Longrightarrow> py_int s = Inr (int (digits_val s))"
  by (simp add: py_int_def)

lemma py_int_too_long: "int_max_str_digits < length s \<Longrightarrow> py_int s = Inl ValueError"
  by (simp add: py_int_def)

lemma py_int_Inr:
  "py_int s = Inr v \<Longrightarrow> v = int (digits_val s) \<and> length s \<le> int_max_str_digits"
  by (auto simp: py_int_def split: if_splits)

lemma py_int_Inl: "py_int s = Inl err \<Longrightarrow> err = ValueError"
  by (auto simp: py_int_def split: if_splits)

lemma py_str_limited_nat:
  "length (str_nat n) \<le> int_max_str_digits \<Longrightarrow> py_str_limited (int n) = Inr (str_nat n)"
  by (simp add: py_str_limited_def)

lemma py_str_limited_segment:
  assumes "digit_string g" and "g \<noteq> []" and "length g \<le> int_max_str_digits"
  shows "py_str_limited (int (digits_val g)) = Inr (py_str (int (digits_val g)))"
proof -
  from assms(2) have "0 < length g" by simp
  from str_nat_length [OF digits_val_bound [OF assms(1)] this] assms(3)
  have "length (str_nat (digits_val g)) \<le> int_max_str_digits" by simp
  then show ?thesis by (simp add: py_str_limited_nat)
qed

lemma py_str_limited_Inr: "py_str_limited v = Inr t \<Longrightarrow> t = py_str v"
  by (auto simp: py_str_limited_def split: if_splits)

section \<open>Properties of the block packer\<close>

subsection \<open>The inner loop\<close>

lemma take2_drop_length: "i + 1 < length s \<Longrightarrow> length (take 2 (drop i s)) = 2"
  by simp

lemma take_drop_step:
  "take 2 (drop i s) @ take k (drop (i + 2) s) = take (2 + k) (drop i s)"
proof -
  have "take (2 + k) (drop i s) = take 2 (drop i s) @ take k (drop 2 (drop i s))"
    by (rule take_add)
  moreover have "drop 2 (drop i s) = drop (i + 2) s"
    by (simp only: drop_drop add.commute)
  ultimately show ?thesis by simp
qed

lemma split_into_blocks_inner_stop_end:
  "\<not> i + 1 < length s \<Longrightarrow> split_into_blocks_inner s m cur cnt i = Inr (cur, cnt, i)"
  by (subst split_into_blocks_inner.simps) simp

lemma split_into_blocks_inner_step:
  assumes "i + 1 < length s" and "digit_string s" and "digit_string cur"
  shows "split_into_blocks_inner s m cur cnt i =
           (if int_max_str_digits < length cur + 2 then Inl ValueError
            else if int (digits_val (cur @ take 2 (drop i s))) < m
            then split_into_blocks_inner s m (cur @ take 2 (drop i s)) (cnt + 1) (i + 2)
            else Inr (cur, cnt, i))"
proof -
  let ?test = "cur @ take 2 (drop i s)"
  have ne: "?test \<noteq> []" using assms(1) by simp
  have ds: "digit_string ?test"
    using assms(2,3) by (simp add: digit_string_take digit_string_drop)
  have len: "length ?test = length cur + 2" using assms(1) by simp
  show ?thesis
  proof (cases "int_max_str_digits < length cur + 2")
    case True
    then have "py_int ?test = Inl ValueError" using len by (simp add: py_int_too_long)
    with True assms(1) show ?thesis
      by (subst split_into_blocks_inner.simps) (simp add: Let_def)
  next
    case False
    then have "py_int ?test = Inr (int (digits_val ?test))"
      using ds ne len by (intro py_int_digits) simp_all
    with False assms(1) show ?thesis
      by (subst split_into_blocks_inner.simps) (simp add: Let_def)
  qed
qed

lemma split_into_blocks_inner_result:
  assumes "digit_string s" and "digit_string cur"
  shows "split_into_blocks_inner s m cur cnt i = Inl ValueError \<or>
         (\<exists>i'. split_into_blocks_inner s m cur cnt i =
               Inr (cur @ take (i' - i) (drop i s), cnt + (i' - i) div 2, i') \<and>
             i \<le> i' \<and> i' \<le> max i (length s) \<and> even (i' - i) \<and>
             (i < i' \<longrightarrow> int (digits_val (cur @ take (i' - i) (drop i s))) < m) \<and>
             (i + 1 < length s \<and> int (digits_val (cur @ take 2 (drop i s))) < m \<longrightarrow> i < i'))"
  using assms
proof (induction s m cur cnt i rule: split_into_blocks_inner.induct)
  case (1 s m cur cnt i)
  show ?case
  proof (cases "i + 1 < length s")
    case False
    then have "split_into_blocks_inner s m cur cnt i = Inr (cur, cnt, i)"
      by (rule split_into_blocks_inner_stop_end)
    with False show ?thesis by (intro disjI2 exI [of _ i]) simp
  next
    case True
    let ?pair = "take 2 (drop i s)"
    let ?test = "cur @ ?pair"
    note step = split_into_blocks_inner_step [OF True "1.prems", of m cnt]
    show ?thesis
    proof (cases "int_max_str_digits < length cur + 2")
      case True
      with step show ?thesis by simp
    next
      case fits: False
      show ?thesis
      proof (cases "int (digits_val ?test) < m")
        case False
        with step fits have "split_into_blocks_inner s m cur cnt i = Inr (cur, cnt, i)" by simp
        with False show ?thesis by (intro disjI2 exI [of _ i]) simp
      next
        case below: True
        have il: "i < length s" using True by simp
        have dt: "digit_string ?test"
          using "1.prems" by (simp add: digit_string_take digit_string_drop)
        have "length ?test \<le> int_max_str_digits" using fits True by simp
        then have pi: "py_int ?test = Inr (int (digits_val ?test))"
          using dt True by (intro py_int_digits) simp_all
        from "1.IH" [OF il True refl refl pi below "1.prems"(1) dt]
        show ?thesis
        proof
          assume "split_into_blocks_inner s m ?test (cnt + 1) (i + 2) = Inl ValueError"
          with step fits below show ?thesis by simp
        next
          assume "\<exists>i'. split_into_blocks_inner s m ?test (cnt + 1) (i + 2) =
              Inr (?test @ take (i' - (i + 2)) (drop (i + 2) s), cnt + 1 + (i' - (i + 2)) div 2, i') \<and>
              i + 2 \<le> i' \<and> i' \<le> max (i + 2) (length s) \<and> even (i' - (i + 2)) \<and>
              (i + 2 < i' \<longrightarrow>
                 int (digits_val (?test @ take (i' - (i + 2)) (drop (i + 2) s))) < m) \<and>
              (i + 2 + 1 < length s \<and>
                 int (digits_val (?test @ take 2 (drop (i + 2) s))) < m \<longrightarrow> i + 2 < i')"
          then obtain i' where r: "split_into_blocks_inner s m ?test (cnt + 1) (i + 2) =
              Inr (?test @ take (i' - (i + 2)) (drop (i + 2) s), cnt + 1 + (i' - (i + 2)) div 2, i')"
            and b: "i + 2 \<le> i'" "i' \<le> max (i + 2) (length s)" "even (i' - (i + 2))"
            and v: "i + 2 < i' \<longrightarrow>
                 int (digits_val (?test @ take (i' - (i + 2)) (drop (i + 2) s))) < m"
            by blast
          have k: "i' - i = 2 + (i' - (i + 2))" using b(1) by simp
          have cat: "?test @ take (i' - (i + 2)) (drop (i + 2) s) = cur @ take (i' - i) (drop i s)"
            by (simp only: k append_assoc take_drop_step)
          have cnt: "cnt + 1 + (i' - (i + 2)) div 2 = cnt + (i' - i) div 2"
            using b(1) by (simp add: k)
          have val: "int (digits_val (cur @ take (i' - i) (drop i s))) < m"
          proof (cases "i + 2 < i'")
            case True
            with v cat show ?thesis by simp
          next
            case False
            with b(1) have "i' = i + 2" by simp
            with below show ?thesis by simp
          qed
          have "split_into_blocks_inner s m cur cnt i =
                  Inr (cur @ take (i' - i) (drop i s), cnt + (i' - i) div 2, i')"
            using step fits below r cat cnt by simp
          moreover have "i \<le> i'" "i < i'" using b(1) by simp_all
          moreover have "i' \<le> max i (length s)" using b(2) True by simp
          moreover have "even (i' - i)" using b(3) k by simp
          ultimately show ?thesis using val by (intro disjI2 exI [of _ i']) simp
        qed
      qed
    qed
  qed
qed

lemma split_into_blocks_inner_no_error:
  assumes "digit_string s" and "digit_string cur"
    and "length cur + (length s - i) \<le> int_max_str_digits"
  shows "split_into_blocks_inner s m cur cnt i \<noteq> Inl ValueError"
  using assms
proof (induction s m cur cnt i rule: split_into_blocks_inner.induct)
  case (1 s m cur cnt i)
  show ?case
  proof (cases "i + 1 < length s")
    case False
    then show ?thesis by (simp add: split_into_blocks_inner_stop_end)
  next
    case True
    let ?test = "cur @ take 2 (drop i s)"
    note step = split_into_blocks_inner_step [OF True "1.prems"(1,2), of m cnt]
    have fits: "\<not> int_max_str_digits < length cur + 2" using True "1.prems"(3) by simp
    show ?thesis
    proof (cases "int (digits_val ?test) < m")
      case False
      with step fits show ?thesis by simp
    next
      case below: True
      have il: "i < length s" using True by simp
      have dt: "digit_string ?test"
        using "1.prems" by (simp add: digit_string_take digit_string_drop)
      have "length ?test \<le> int_max_str_digits" using fits True by simp
      then have pi: "py_int ?test = Inr (int (digits_val ?test))"
        using dt True by (intro py_int_digits) simp_all
      have "length ?test + (length s - (i + 2)) \<le> int_max_str_digits"
        using True "1.prems"(3) by simp
      from "1.IH" [OF il True refl refl pi below "1.prems"(1) dt this]
      show ?thesis using step fits below by simp
    qed
  qed
qed

subsection \<open>The outer loop\<close>

lemma split_into_blocks_inner_fresh_result:
  assumes "digit_string s" and "split_into_blocks_inner s m [] 0 i = Inr (g, k, i')"
  shows "g = take (i' - i) (drop i s)" and "k = (i' - i) div 2"
    and "i \<le> i'" and "i' \<le> max i (length s)" and "even (i' - i)"
    and "i < i' \<longrightarrow> int (digits_val (take (i' - i) (drop i s))) < m"
proof -
  from split_into_blocks_inner_result [OF assms(1), of "[]" m 0 i] assms(2)
  obtain j where j: "Inr (g, k, i') = Inr (take (j - i) (drop i s), (j - i) div 2, j)"
    and p: "i \<le> j" "j \<le> max i (length s)" "even (j - i)"
      "i < j \<longrightarrow> int (digits_val (take (j - i) (drop i s))) < m"
    by auto
  from j have eq: "j = i'" "g = take (j - i) (drop i s)" "k = (j - i) div 2" by simp_all
  show "g = take (i' - i) (drop i s)" using eq by simp
  show "k = (i' - i) div 2" using eq by simp
  show "i \<le> i'" using p eq by simp
  show "i' \<le> max i (length s)" using p eq by simp
  show "even (i' - i)" using p eq by simp
  show "i < i' \<longrightarrow> int (digits_val (take (i' - i) (drop i s))) < m" using p eq by simp
qed

lemma split_into_blocks_inner_fresh:
  assumes "digit_string s" and "length s \<le> int_max_str_digits"
  shows "\<exists>i'. split_into_blocks_inner s m [] 0 i = Inr (take (i' - i) (drop i s), (i' - i) div 2, i') \<and>
             i \<le> i' \<and> i' \<le> max i (length s) \<and> even (i' - i) \<and>
             (i < i' \<longrightarrow> int (digits_val (take (i' - i) (drop i s))) < m) \<and>
             (i + 1 < length s \<and> int (digits_val (take 2 (drop i s))) < m \<longrightarrow> i < i')"
proof -
  have "length ([] :: string) + (length s - i) \<le> int_max_str_digits" using assms(2) by simp
  from split_into_blocks_inner_no_error [OF assms(1) _ this, of m 0]
  have "split_into_blocks_inner s m [] 0 i \<noteq> Inl ValueError" by simp
  with split_into_blocks_inner_result [OF assms(1), of "[]" m 0 i] show ?thesis by simp
qed

lemma fresh_segment:
  assumes "i < i'" and "i' \<le> length s" and "even (i' - i)" and "digit_string s"
    and "int (digits_val (take (i' - i) (drop i s))) < m"
  shows "take (i' - i) (drop i s) \<noteq> []"
    and "seg_ok m (take (i' - i) (drop i s))"
    and "block_of (take (i' - i) (drop i s)) = (int (digits_val (take (i' - i) (drop i s))), (i' - i) div 2)"
    and "digit_string (take (i' - i) (drop i s))"
    and "take (i' - i) (drop i s) @ drop i' s = drop i s"
proof -
  let ?g = "take (i' - i) (drop i s)"
  have len: "length ?g = i' - i" using assms(1,2) by simp
  show ne: "?g \<noteq> []" using len assms(1) by auto
  show "seg_ok m ?g" using ne len assms(3,5) by (simp add: seg_ok_def)
  show "block_of ?g = (int (digits_val ?g), (i' - i) div 2)" using len by (simp add: block_of_def)
  show "digit_string ?g" using assms(4) by (simp add: digit_string_take digit_string_drop)
  have "drop i' s = drop (i' - i) (drop i s)" using assms(1) by simp
  then show "?g @ drop i' s = drop i s" by (simp only: append_take_drop_id)
qed

lemma even_advance: "i < i' \<Longrightarrow> even (i' - i) \<Longrightarrow> even i \<Longrightarrow> even (i'::nat)"
  by presburger

lemma split_into_blocks_outer_done:
  "\<not> i < length s \<Longrightarrow> split_into_blocks_outer s m blocks i = Some (Inr blocks)"
  by (subst split_into_blocks_outer.simps) simp

lemma split_into_blocks_outer_emit:
  assumes "i < length s"
    and "split_into_blocks_inner s m [] 0 i = Inr (g, k, i')"
    and "g \<noteq> []" and "py_int g = Inr v"
  shows "split_into_blocks_outer s m blocks i = split_into_blocks_outer s m (blocks @ [(v, k)]) i'"
  using assms by (subst split_into_blocks_outer.simps) simp

lemma group_at:
  "2 * j + 1 < length s \<Longrightarrow> take 2 (drop (2 * j) s) \<in> set (groups s)"
proof (induction s arbitrary: j rule: groups.induct)
  case (1 a b rest)
  show ?case
  proof (cases j)
    case 0
    then show ?thesis by simp
  next
    case (Suc j')
    with "1.prems" have "2 * j' + 1 < length rest" by simp
    from "1.IH" [OF this] Suc show ?thesis by simp
  qed
qed simp_all

lemma split_into_blocks_outer_returns:
  assumes "digit_string s" and "even (length s)" and "groups_below s m" and "even i"
    and "length s \<le> int_max_str_digits"
  shows "\<exists>bs. split_into_blocks_outer s m blocks i = Some (Inr bs)"
  using assms(4)
proof (induction "length s - i" arbitrary: i blocks rule: less_induct)
  case less
  show ?case
  proof (cases "i < length s")
    case False
    then show ?thesis by (simp add: split_into_blocks_outer_done)
  next
    case True
    with less.prems assms(2) have two: "i + 1 < length s" by presburger
    from less.prems obtain j where j: "i = 2 * j" by (auto elim: evenE)
    with two have "take 2 (drop i s) \<in> set (groups s)" by (simp add: group_at)
    with assms(3) have first: "int (digits_val (take 2 (drop i s))) < m"
      by (simp add: groups_below_def)
    from split_into_blocks_inner_fresh [OF assms(1,5), of m i] two first
    obtain i' where r: "split_into_blocks_inner s m [] 0 i
            = Inr (take (i' - i) (drop i s), (i' - i) div 2, i')"
      and b: "i < i'" "i' \<le> max i (length s)" "even (i' - i)"
      and v: "int (digits_val (take (i' - i) (drop i s))) < m"
      by blast
    from b True have le: "i' \<le> length s" by simp
    note seg = fresh_segment [OF b(1) le b(3) assms(1) v]
    have "length (take (i' - i) (drop i s)) \<le> int_max_str_digits" using assms(5) by simp
    from py_int_digits [OF seg(4) seg(1) this]
    have "split_into_blocks_outer s m blocks i
        = split_into_blocks_outer s m
            (blocks @ [(int (digits_val (take (i' - i) (drop i s))), (i' - i) div 2)]) i'"
      by (rule split_into_blocks_outer_emit [OF True r seg(1)])
    moreover have "length s - i' < length s - i" using b(1) True by simp
    moreover have "even i'" using b(1,3) less.prems by (rule even_advance)
    ultimately show ?thesis using less.hyps by simp
  qed
qed

lemma split_into_blocks_outer_segments:
  assumes "split_into_blocks_outer s m blocks i = Some y"
  shows "digit_string s \<longrightarrow> even i \<longrightarrow>
         (\<forall>bs. y = Inr bs \<longrightarrow>
            (\<exists>segs. bs = blocks @ map block_of segs \<and> concat segs = drop i s \<and>
                    (\<forall>g \<in> set segs. seg_ok m g \<and> length g \<le> int_max_str_digits)))"
proof (rule split_into_blocks_outer.raw_induct [OF _ assms])
  fix f s m blocks i y
  assume IH: "\<And>s m blocks i y. f s m blocks i = Some y \<Longrightarrow>
         digit_string s \<longrightarrow> even i \<longrightarrow>
         (\<forall>bs. y = Inr bs \<longrightarrow>
            (\<exists>segs. bs = blocks @ map block_of segs \<and> concat segs = drop i s \<and>
                    (\<forall>g \<in> set segs. seg_ok m g \<and> length g \<le> int_max_str_digits)))"
    and prem: "(if i < length s
      then case split_into_blocks_inner s m [] 0 i of
           Inl err \<Rightarrow> Some (Inl err)
           | Inr (current_block, letters_count, i') \<Rightarrow>
               if current_block \<noteq> []
               then case py_int current_block of Inl err \<Rightarrow> Some (Inl err)
                    | Inr v \<Rightarrow> f s m (blocks @ [(v, letters_count)]) i'
               else f s m blocks i'
      else Some (Inr blocks)) = Some y"
  show "digit_string s \<longrightarrow> even i \<longrightarrow>
         (\<forall>bs. y = Inr bs \<longrightarrow>
            (\<exists>segs. bs = blocks @ map block_of segs \<and> concat segs = drop i s \<and>
                    (\<forall>g \<in> set segs. seg_ok m g \<and> length g \<le> int_max_str_digits)))"
  proof (intro impI allI)
    fix bs
    assume ds: "digit_string s" and ev: "even i" and y: "y = Inr bs"
    show "\<exists>segs. bs = blocks @ map block_of segs \<and> concat segs = drop i s \<and>
                 (\<forall>g \<in> set segs. seg_ok m g \<and> length g \<le> int_max_str_digits)"
    proof (cases "i < length s")
      case False
      with prem y have "bs = blocks" by simp
      with False show ?thesis by (intro exI [of _ "[]"]) simp
    next
      case True
      from prem True y obtain g k i'
        where r: "split_into_blocks_inner s m [] 0 i = Inr (g, k, i')"
        by (cases "split_into_blocks_inner s m [] 0 i") auto
      note fr = split_into_blocks_inner_fresh_result [OF ds r]
      from fr(4) True have le: "i' \<le> length s" by simp
      show ?thesis
      proof (cases "i < i'")
        case False
        with fr(3) have same: "i' = i" by simp
        with fr(1) have "g = []" by simp
        with prem True r same have "f s m blocks i = Some y" by simp
        from IH [OF this] ds ev y show ?thesis by blast
      next
        case adv: True
        from fr(6) adv have val: "int (digits_val (take (i' - i) (drop i s))) < m" by simp
        note seg = fresh_segment [OF adv le fr(5) ds val]
        from seg(1) fr(1) have gne: "g \<noteq> []" by simp
        from prem True r gne y obtain v
          where pv: "py_int g = Inr v" and call: "f s m (blocks @ [(v, k)]) i' = Some y"
          by (cases "py_int g") auto
        from py_int_Inr [OF pv] have v: "v = int (digits_val g)"
          and glen: "length g \<le> int_max_str_digits" by simp_all
        have "even i'" using adv fr(5) ev by (rule even_advance)
        with IH [OF call] ds y obtain segs
          where s: "bs = (blocks @ [(v, k)]) @ map block_of segs"
            "concat segs = drop i' s"
            "\<forall>h \<in> set segs. seg_ok m h \<and> length h \<le> int_max_str_digits"
          by blast
        have blk: "block_of g = (v, k)" using seg(3) fr(1,2) v by simp
        have "seg_ok m g" using seg(2) fr(1) by simp
        moreover have "g @ drop i' s = drop i s" using seg(5) fr(1) by simp
        ultimately show ?thesis
          using s blk glen by (intro exI [of _ "g # segs"]) simp
      qed
    qed
  qed
qed

subsection \<open>Packing and unpacking\<close>

lemma split_into_blocks_segments_bounded:
  assumes "digit_string s" and "split_into_blocks s m = Some (Inr bs)"
  shows "\<exists>segs. bs = map block_of segs \<and> concat segs = s \<and>
           (\<forall>g \<in> set segs. seg_ok m g \<and> length g \<le> int_max_str_digits)"
  using split_into_blocks_outer_segments [of s m "[]" 0 "Inr bs"] assms
  by (simp add: split_into_blocks_def)

lemma split_into_blocks_segments:
  assumes "digit_string s" and "split_into_blocks s m = Some (Inr bs)"
  shows "\<exists>segs. bs = map block_of segs \<and> concat segs = s \<and> (\<forall>g \<in> set segs. seg_ok m g)"
proof -
  from split_into_blocks_segments_bounded [OF assms] obtain segs
    where "bs = map block_of segs" "concat segs = s"
      "\<forall>g \<in> set segs. seg_ok m g \<and> length g \<le> int_max_str_digits" by blast
  then show ?thesis by (intro exI [of _ segs]) simp
qed

lemma split_into_blocks_returns:
  assumes "digit_string s" and "even (length s)" and "groups_below s m"
    and "length s \<le> int_max_str_digits"
  shows "\<exists>bs. split_into_blocks s m = Some (Inr bs)"
  using split_into_blocks_outer_returns [OF assms(1-3) _ assms(4), of 0 "[]"]
  by (simp add: split_into_blocks_def)

lemma block_str_segment:
  assumes "digit_string g" and "g \<noteq> []" and "even (length g)"
  shows "(case block_of g of (M, num_letters) \<Rightarrow> zfill (num_letters * 2) (py_str M)) = g"
proof -
  from assms(3) have "length g div 2 * 2 = length g" by simp
  with zfill_roundtrip [OF assms(1,2)] show ?thesis by (simp add: block_of_def)
qed

lemma digit_string_concat: "digit_string (concat segs) \<longleftrightarrow> (\<forall>g \<in> set segs. digit_string g)"
  by (induction segs) simp_all

lemma reconstruct_numeric_string_loop_segments:
  assumes "\<forall>g \<in> set segs. digit_string g \<and> seg_ok m g \<and> length g \<le> int_max_str_digits"
  shows "reconstruct_numeric_string_loop (map block_of segs) acc = Inr (acc @ concat segs)"
  using assms
proof (induction segs arbitrary: acc)
  case Nil
  show ?case by simp
next
  case (Cons g segs)
  then have g: "digit_string g" "g \<noteq> []" "even (length g)" "length g \<le> int_max_str_digits"
    by (simp_all add: seg_ok_def)
  have lim: "py_str_limited (int (digits_val g)) = Inr (py_str (int (digits_val g)))"
    using g(1,2,4) by (rule py_str_limited_segment)
  have pad: "zfill (length g div 2 * 2) (py_str (int (digits_val g))) = g"
    using block_str_segment [OF g(1-3)] by (simp add: block_of_def)
  have "reconstruct_numeric_string_loop (map block_of (g # segs)) acc
          = reconstruct_numeric_string_loop (map block_of segs) (acc @ g)"
    using lim pad by (simp add: block_of_def Let_def)
  also have "\<dots> = Inr ((acc @ g) @ concat segs)" using Cons by simp
  finally show ?case by simp
qed

lemma reconstruct_segments:
  assumes "\<forall>g \<in> set segs. digit_string g \<and> seg_ok m g \<and> length g \<le> int_max_str_digits"
  shows "reconstruct_numeric_string (map block_of segs) = Inr (concat segs)"
  using reconstruct_numeric_string_loop_segments [OF assms, of "[]"]
  by (simp add: reconstruct_numeric_string_def)

lemma split_into_blocks_outer_stuck:
  assumes "i < length s" and "split_into_blocks_inner s m [] 0 i = Inr ([], k, i)"
  shows "split_into_blocks_outer s m blocks i = None"
proof (rule ccontr)
  assume "split_into_blocks_outer s m blocks i \<noteq> None"
  then obtain y where y: "split_into_blocks_outer s m blocks i = Some y" by auto
  have "\<not> (i < length s \<and> split_into_blocks_inner s m [] 0 i = Inr ([], k, i))"
  proof (rule split_into_blocks_outer.raw_induct [OF _ y])
    fix f s m blocks i y
    assume IH: "\<And>s m blocks i y. f s m blocks i = Some y \<Longrightarrow>
           \<not> (i < length s \<and> split_into_blocks_inner s m [] 0 i = Inr ([], k, i))"
      and prem: "(if i < length s
        then case split_into_blocks_inner s m [] 0 i of
             Inl err \<Rightarrow> Some (Inl err)
             | Inr (current_block, letters_count, i') \<Rightarrow>
                 if current_block \<noteq> []
                 then case py_int current_block of Inl err \<Rightarrow> Some (Inl err)
                      | Inr v \<Rightarrow> f s m (blocks @ [(v, letters_count)]) i'
                 else f s m blocks i'
        else Some (Inr blocks)) = Some y"
    show "\<not> (i < length s \<and> split_into_blocks_inner s m [] 0 i = Inr ([], k, i))"
    proof
      assume st: "i < length s \<and> split_into_blocks_inner s m [] 0 i = Inr ([], k, i)"
      with prem have "f s m blocks i = Some y" by simp
      from IH [OF this] st show False by simp
    qed
  qed
  with assms show False by simp
qed

lemma even_length_concat: "\<forall>g \<in> set segs. even (length g) \<Longrightarrow> even (length (concat segs))"
  by (induction segs) simp_all

lemma sum_block_lengths:
  "\<forall>g \<in> set segs. even (length g)
     \<Longrightarrow> sum_list (map (\<lambda>(v, k). 2 * k) (map block_of segs)) = length (concat segs)"
  by (induction segs) (simp_all add: block_of_def)

lemma py_str_length_segment:
  assumes "digit_string g" and "g \<noteq> []"
  shows "length (py_str (int (digits_val g))) \<le> length g"
  using str_nat_length [OF digits_val_bound [OF assms(1)]] assms(2) by simp

subsection \<open>Evaluating the packer on a concrete input\<close>

lemma split_into_blocks_inner_grow:
  assumes "i + 1 < length s" and "digit_string s" and "digit_string cur"
    and "length cur + 2 \<le> int_max_str_digits"
    and "int (digits_val (cur @ take 2 (drop i s))) < m"
  shows "split_into_blocks_inner s m cur cnt i
           = split_into_blocks_inner s m (cur @ take 2 (drop i s)) (cnt + 1) (i + 2)"
  using split_into_blocks_inner_step [OF assms(1-3), of m cnt] assms(4,5) by simp

lemma split_into_blocks_inner_full:
  assumes "i + 1 < length s" and "digit_string s" and "digit_string cur"
    and "length cur + 2 \<le> int_max_str_digits"
    and "\<not> int (digits_val (cur @ take 2 (drop i s))) < m"
  shows "split_into_blocks_inner s m cur cnt i = Inr (cur, cnt, i)"
  using split_into_blocks_inner_step [OF assms(1-3), of m cnt] assms(4,5) by simp

lemma split_into_blocks_outer_unfold:
  "i < length s \<Longrightarrow>
   split_into_blocks_outer s m blocks i =
     (case split_into_blocks_inner s m [] 0 i of
        Inl err \<Rightarrow> Some (Inl err)
      | Inr (current_block, letters_count, i') \<Rightarrow>
          if current_block \<noteq> [] then
            (case py_int current_block of
               Inl err \<Rightarrow> Some (Inl err)
             | Inr v \<Rightarrow> split_into_blocks_outer s m (blocks @ [(v, letters_count)]) i')
          else split_into_blocks_outer s m blocks i')"
  by (subst split_into_blocks_outer.simps) simp

lemmas pack_eval = split_into_blocks_def split_into_blocks_outer_unfold
  split_into_blocks_outer_done split_into_blocks_inner_grow split_into_blocks_inner_full
  split_into_blocks_inner_stop_end py_int_def int_max_str_digits_def
  is_digit_def digits_val_def digit_val_def

subsection \<open>An accumulator that outgrows the digit limit\<close>

lemma digits_val_prefix_le: "digits_val s \<le> digits_val (s @ t)"
proof -
  have "digits_val s * 1 \<le> digits_val s * 10 ^ length t" by (rule mult_le_mono2) simp
  then have "digits_val s \<le> digits_val s * 10 ^ length t" by (simp only: mult_1_right)
  then have "digits_val s \<le> digits_val s * 10 ^ length t + digits_val t" by (rule trans_le_add1)
  then show ?thesis by (simp only: digits_val_append)
qed

lemma take2_drop_rest: "take 2 (drop i s) @ drop (i + 2) s = drop i s"
proof -
  have "drop (i + 2) s = drop 2 (drop i s)" by (simp only: drop_drop add.commute)
  then show ?thesis by (simp only: append_take_drop_id)
qed

lemma split_into_blocks_inner_too_long:
  assumes "digit_string s" and "digit_string cur" and "even (length s - i)"
    and "length cur \<le> int_max_str_digits"
    and "int_max_str_digits < length cur + (length s - i)"
    and "int (digits_val (cur @ drop i s)) < m"
  shows "split_into_blocks_inner s m cur cnt i = Inl ValueError"
  using assms
proof (induction s m cur cnt i rule: split_into_blocks_inner.induct)
  case (1 s m cur cnt i)
  let ?test = "cur @ take 2 (drop i s)"
  from "1.prems"(4,5) have "0 < length s - i" by simp
  with "1.prems"(3) have "2 \<le> length s - i" by presburger
  then have two: "i + 1 < length s" by simp
  note step = split_into_blocks_inner_step [OF two "1.prems"(1,2), of m cnt]
  show ?case
  proof (cases "int_max_str_digits < length cur + 2")
    case True
    with step show ?thesis by simp
  next
    case fits: False
    have whole: "?test @ drop (i + 2) s = cur @ drop i s"
      by (simp only: append_assoc take2_drop_rest)
    have "digits_val ?test \<le> digits_val (?test @ drop (i + 2) s)" by (rule digits_val_prefix_le)
    with whole "1.prems"(6) have below: "int (digits_val ?test) < m" by simp
    have il: "i < length s" using two by simp
    have dt: "digit_string ?test"
      using "1.prems" by (simp add: digit_string_take digit_string_drop)
    have len: "length ?test = length cur + 2" using two by simp
    then have fit: "length ?test \<le> int_max_str_digits" using fits by simp
    then have pi: "py_int ?test = Inr (int (digits_val ?test))"
      using dt two by (intro py_int_digits) simp_all
    have ev: "even (length s - (i + 2))" using "1.prems"(3) two by simp
    have long: "int_max_str_digits < length ?test + (length s - (i + 2))"
      using "1.prems"(5) two len by simp
    have val: "int (digits_val (?test @ drop (i + 2) s)) < m"
      using whole "1.prems"(6) by simp
    from "1.IH" [OF il two refl refl pi below "1.prems"(1) dt ev fit long val]
    show ?thesis using step fits below by simp
  qed
qed

lemma split_into_blocks_too_long:
  assumes "digit_string s" and "even (length s)" and "int_max_str_digits < length s"
    and "int (digits_val s) < m"
  shows "split_into_blocks s m = Some (Inl ValueError)"
proof -
  have "split_into_blocks_inner s m [] 0 0 = Inl ValueError"
    using assms by (intro split_into_blocks_inner_too_long) simp_all
  moreover have "0 < length s" using assms(3) by (cases s) simp_all
  ultimately show ?thesis by (simp add: split_into_blocks_def split_into_blocks_outer_unfold)
qed

lemma groups_replicate: "groups (replicate (2 * n) c) = replicate n [c, c]"
  by (induction n) simp_all

lemma groups_below_zeros: "0 < m \<Longrightarrow> groups_below (replicate (2 * n) CHR ''0'') m"
  by (simp add: groups_below_def groups_replicate digits_val_def digit_val_def)

lemma groups_below_mono: "groups_below s m \<Longrightarrow> m \<le> m' \<Longrightarrow> groups_below s m'"
  by (auto simp: groups_below_def)

section \<open>Properties of the primality oracle\<close>

lemma factor_twos_returns:
  "0 < d \<Longrightarrow> \<exists>r' d'. factor_twos r d = Some (r', d')"
proof (induction "nat d" arbitrary: r d rule: less_induct)
  case less
  show ?case
  proof (cases "d mod 2 = 0")
    case True
    with less.prems have pos: "0 < d div 2" by presburger
    from less.prems have "d div 2 < d" by simp
    with pos have "nat (d div 2) < nat d" by simp
    from less.hyps [OF this pos, of "r + 1"] True show ?thesis
      by (subst factor_twos.simps) simp
  next
    case False
    then show ?thesis by (subst factor_twos.simps) simp
  qed
qed

section \<open>Fermat's little theorem and the RSA identity\<close>

lemma is_prime_gt_1: "is_prime p \<Longrightarrow> 1 < p"
  by (simp add: is_prime_def)

lemma is_prime_divisors:
  assumes "is_prime p" and "d dvd p"
  shows "d = 1 \<or> d = p"
proof (rule ccontr)
  assume neg: "\<not> (d = 1 \<or> d = p)"
  from assms have "0 < p" by (simp add: is_prime_def)
  with assms(2) have "d \<le> p" "d \<noteq> 0" by (auto dest: dvd_imp_le)
  with neg have "d \<in> {2..<p}" by auto
  with assms show False by (auto simp: is_prime_def)
qed

lemma is_prime_coprime:
  assumes "is_prime p" and "\<not> p dvd a"
  shows "coprime p a"
proof -
  have "gcd p a dvd p" by simp
  with is_prime_divisors [OF assms(1)] have "gcd p a = 1 \<or> gcd p a = p" by blast
  moreover have "gcd p a \<noteq> p" using assms(2) by (metis gcd_dvd2)
  ultimately show ?thesis by (simp add: coprime_iff_gcd_eq_1)
qed

lemma is_prime_dvd_binomial:
  assumes "is_prime p" and "0 < k" and "k < p"
  shows "p dvd (p choose k)"
proof -
  have "k * (p choose k) = p * ((p - 1) choose (k - 1))"
    using assms(2) by (rule times_binomial_minus1_eq)
  then have "p dvd (p choose k) * k" by (simp add: mult.commute)
  moreover have "\<not> p dvd k" using assms(2,3) by (auto dest: dvd_imp_le)
  then have "coprime p k" using assms(1) by (rule is_prime_coprime [rotated])
  ultimately show ?thesis by (simp add: coprime_dvd_mult_left_iff)
qed

lemma freshman_dream:
  assumes "is_prime p"
  shows "(a + 1) ^ p mod p = (a ^ p + 1) mod (p::nat)"
proof -
  from assms have p: "0 < p" by (simp add: is_prime_def)
  let ?f = "\<lambda>k. (p choose k) * a ^ k"
  have "(a + 1) ^ p = (\<Sum>k\<le>p. ?f k)" using binomial [of a 1 p] by simp
  also have "{..p} = insert p {..<p}" by auto
  also have "(\<Sum>k\<in>insert p {..<p}. ?f k) = ?f p + (\<Sum>k<p. ?f k)" by simp
  also have "{..<p} = insert 0 {1..<p}" using p by auto
  also have "(\<Sum>k\<in>insert 0 {1..<p}. ?f k) = ?f 0 + (\<Sum>k = 1..<p. ?f k)" by simp
  finally have expand: "(a + 1) ^ p = a ^ p + 1 + (\<Sum>k = 1..<p. ?f k)" by simp
  have "p dvd (\<Sum>k = 1..<p. ?f k)"
  proof (rule dvd_sum)
    fix k assume "k \<in> {1..<p}"
    then have "p dvd (p choose k)" by (intro is_prime_dvd_binomial [OF assms]) simp_all
    then show "p dvd ?f k" by (rule dvd_mult2)
  qed
  then have "(a ^ p + 1 + (\<Sum>k = 1..<p. ?f k)) mod p = (a ^ p + 1) mod p"
    by (metis mod_add_self2 dvd_def mod_mult_self1 mult.commute)
  with expand show ?thesis by simp
qed

lemma fermat_little:
  assumes "is_prime p"
  shows "a ^ p mod p = a mod (p::nat)"
proof (induction a)
  case 0
  from assms have "0 < p" by (simp add: is_prime_def)
  then show ?case by (simp add: power_0_left)
next
  case (Suc a)
  have "(Suc a) ^ p mod p = (a ^ p + 1) mod p"
    using freshman_dream [OF assms, of a] by simp
  also have "\<dots> = (a ^ p mod p + 1) mod p" by (simp only: mod_add_left_eq)
  also have "\<dots> = (a mod p + 1) mod p" by (simp only: Suc.IH)
  also have "\<dots> = (a + 1) mod p" by (simp only: mod_add_left_eq)
  also have "\<dots> = Suc a mod p" by simp
  finally show ?case .
qed

lemma fermat_cycle:
  assumes "is_prime p"
  shows "a ^ (1 + j * (p - 1)) mod p = a mod (p::nat)"
proof (induction j)
  case 0
  show ?case by simp
next
  case (Suc j)
  from assms have p: "1 \<le> p" by (simp add: is_prime_def)
  have "1 + Suc j * (p - 1) = (1 + j * (p - 1)) + (p - 1)" by simp
  then have "a ^ (1 + Suc j * (p - 1)) = a ^ (1 + j * (p - 1)) * a ^ (p - 1)"
    by (simp only: power_add)
  then have "a ^ (1 + Suc j * (p - 1)) mod p = (a ^ (1 + j * (p - 1)) * a ^ (p - 1)) mod p"
    by (rule arg_cong)
  also have "\<dots> = (a ^ (1 + j * (p - 1)) mod p * a ^ (p - 1)) mod p"
    by (simp only: mod_mult_left_eq)
  also have "\<dots> = (a mod p * a ^ (p - 1)) mod p" by (simp only: Suc.IH)
  also have "\<dots> = (a * a ^ (p - 1)) mod p" by (simp only: mod_mult_left_eq)
  also have "a * a ^ (p - 1) = a ^ p" using p by (metis power_Suc Suc_pred' less_eq_Suc_le One_nat_def)
  also have "a ^ p mod p = a mod p" by (rule fermat_little [OF assms])
  finally show ?case .
qed

lemma distinct_primes_coprime:
  assumes "is_prime p" and "is_prime q" and "p \<noteq> q"
  shows "coprime p q"
proof -
  have "\<not> p dvd q"
  proof
    assume "p dvd q"
    with is_prime_divisors [OF assms(2)] have "p = 1 \<or> p = q" by blast
    with assms(1,3) show False by (simp add: is_prime_def)
  qed
  with assms(1) show ?thesis by (rule is_prime_coprime)
qed

lemma rsa_identity:
  assumes "is_prime p" and "is_prime q" and "p \<noteq> q"
  shows "a ^ (1 + k * ((p - 1) * (q - 1))) mod (p * q) = a mod (p * q :: nat)"
proof -
  let ?E = "1 + k * ((p - 1) * (q - 1))"
  have e1: "?E = 1 + (k * (q - 1)) * (p - 1)" by (simp add: mult.commute mult.left_commute)
  have mp: "a ^ ?E mod p = a mod p" unfolding e1 by (rule fermat_cycle [OF assms(1)])
  have e2: "?E = 1 + (k * (p - 1)) * (q - 1)" by (simp add: mult.commute mult.left_commute)
  have mq: "a ^ ?E mod q = a mod q" unfolding e2 by (rule fermat_cycle [OF assms(2)])
  have "int (a ^ ?E) mod int p = int a mod int p" using mp by (metis zmod_int)
  then have dp: "int p dvd int (a ^ ?E) - int a" by (simp add: mod_eq_dvd_iff)
  have "int (a ^ ?E) mod int q = int a mod int q" using mq by (metis zmod_int)
  then have dq: "int q dvd int (a ^ ?E) - int a" by (simp add: mod_eq_dvd_iff)
  have "coprime (int p) (int q)" using distinct_primes_coprime [OF assms] by simp
  with dp dq have "int p * int q dvd int (a ^ ?E) - int a" by (rule divides_mult)
  then have "int (a ^ ?E) mod (int p * int q) = int a mod (int p * int q)"
    by (simp add: mod_eq_dvd_iff)
  then have "int (a ^ ?E mod (p * q)) = int (a mod (p * q))" by (simp add: zmod_int)
  then show ?thesis by (simp only: of_nat_eq_iff)
qed

section \<open>The codec on upper-case text\<close>

lemma zfill2_small:
  assumes "k < 100"
  shows "digit_string (zfill 2 (str_nat k))" and "length (zfill 2 (str_nat k)) = 2"
    and "digits_val (zfill 2 (str_nat k)) = k"
proof -
  from assms have "k < 10 ^ 2" by simp
  then have len: "length (str_nat k) \<le> 2" by (rule str_nat_length) simp
  note z = zfill_str_nat [OF len]
  show "digit_string (zfill 2 (str_nat k))" by (simp add: z str_nat_digits)
  show "length (zfill 2 (str_nat k)) = 2" using len by (simp add: z)
  show "digits_val (zfill 2 (str_nat k)) = k" by (simp add: z digits_val_append str_nat_val)
qed

lemma letter_digits_upper:
  assumes "65 \<le> (of_char c :: nat)" and "(of_char c :: nat) \<le> 90"
  shows "digit_string (letter_digits c)" and "length (letter_digits c) = 2"
    and "digits_val (letter_digits c) = of_char c - 65"
    and "letter_digits c \<noteq> []"
proof -
  let ?k = "(of_char c :: nat) - 65"
  have k: "int (of_char c) - 65 = int ?k" using assms(1) by simp
  have eq: "letter_digits c = zfill 2 (str_nat ?k)"
    unfolding letter_digits_def format_02d_def k by simp
  have small: "?k < 100" using assms(2) by simp
  show "digit_string (letter_digits c)" unfolding eq by (rule zfill2_small(1) [OF small])
  show l: "length (letter_digits c) = 2" unfolding eq by (rule zfill2_small(2) [OF small])
  show "digits_val (letter_digits c) = of_char c - 65" unfolding eq by (rule zfill2_small(3) [OF small])
  show "letter_digits c \<noteq> []" using l by auto
qed

lemma py_upper_upper:
  "65 \<le> (of_char c :: nat) \<Longrightarrow> (of_char c :: nat) \<le> 90 \<Longrightarrow> py_upper c = [of_char c]"
  by (simp add: py_upper_def)

lemma upper_text_Cons [simp]:
  "upper_text (c # msg) \<longleftrightarrow> 65 \<le> (of_char c :: nat) \<and> (of_char c :: nat) \<le> 90 \<and> upper_text msg"
  by (auto simp: upper_text_def)

lemma upper_text_Nil [simp]: "upper_text []"
  by (simp add: upper_text_def)

lemma upper_text_upper: "upper_text msg \<Longrightarrow> concat (map py_upper msg) = map of_char msg"
  by (induction msg) (simp_all add: py_upper_upper)

lemma text_to_numbers_loop_upper:
  "upper_text msg \<Longrightarrow>
   text_to_numbers_loop (map of_char msg) acc = acc @ concat (map letter_digits msg)"
  by (induction msg arbitrary: acc) (simp_all add: letter_digits_def)

lemma text_to_numbers_upper:
  "upper_text msg \<Longrightarrow> text_to_numbers msg = concat (map letter_digits msg)"
  by (simp add: text_to_numbers_def upper_text_upper text_to_numbers_loop_upper)

lemma encoded_digit_string: "upper_text msg \<Longrightarrow> digit_string (concat (map letter_digits msg))"
  by (induction msg) (simp_all add: letter_digits_upper)

lemma encoded_length: "upper_text msg \<Longrightarrow> length (concat (map letter_digits msg)) = 2 * length msg"
  by (induction msg) (simp_all add: letter_digits_upper)

lemma groups_pair: "length g = 2 \<Longrightarrow> groups (g @ s) = g # groups s"
  by (cases g rule: groups.cases) auto

lemma encoded_groups: "upper_text msg \<Longrightarrow> groups (concat (map letter_digits msg)) = map letter_digits msg"
  by (induction msg) (simp_all add: letter_digits_upper groups_pair)

lemma encoded_groups_below:
  assumes "upper_text msg" and "25 < m"
  shows "groups_below (concat (map letter_digits msg)) m"
proof -
  have "int (digits_val (letter_digits c)) < m" if "c \<in> set msg" for c
  proof -
    from that assms(1) have c: "65 \<le> (of_char c :: nat)" "(of_char c :: nat) \<le> 90"
      by (auto simp: upper_text_def)
    then have "digits_val (letter_digits c) \<le> 25" by (simp add: letter_digits_upper)
    with assms(2) show ?thesis by simp
  qed
  then show ?thesis using assms(1) by (auto simp add: groups_below_def encoded_groups)
qed

lemma map_numbers_to_text_loop_letter:
  assumes "65 \<le> (of_char c :: nat)" and "(of_char c :: nat) \<le> 90"
  shows "map_numbers_to_text_loop (pre @ letter_digits c @ rest) (length pre) acc
         = map_numbers_to_text_loop ((pre @ letter_digits c) @ rest) (length (pre @ letter_digits c)) (acc @ [c])"
proof -
  note ld = letter_digits_upper [OF assms]
  let ?s = "pre @ letter_digits c @ rest"
  have pair: "take 2 (drop (length pre) ?s) = letter_digits c" using ld(2) by simp
  have "length (letter_digits c) \<le> int_max_str_digits"
    using ld(2) by (simp add: int_max_str_digits_def)
  from py_int_digits [OF ld(1) ld(4) this]
  have pi: "py_int (letter_digits c) = Inr (int (of_char c - 65))"
    using ld(3) by simp
  have rng: "0 \<le> int ((of_char c :: nat) - 65)" "int ((of_char c :: nat) - 65) \<le> 25"
    using assms by simp_all
  have "65 + int ((of_char c :: nat) - 65) = int (of_char c)" using assms(1) by simp
  then have ch: "char_of (65 + int ((of_char c :: nat) - 65)) = c" by simp
  have "length pre + 1 < length ?s" using ld(2) by simp
  then show ?thesis
    using pair pi rng ch ld(2)
    by (subst map_numbers_to_text_loop.simps) (simp add: Let_def)
qed

lemma map_numbers_to_text_loop_encoded:
  "upper_text msg \<Longrightarrow>
   map_numbers_to_text_loop (pre @ concat (map letter_digits msg)) (length pre) acc = Inr (acc @ msg)"
proof (induction msg arbitrary: pre acc)
  case Nil
  show ?case by (subst map_numbers_to_text_loop.simps) simp
next
  case (Cons c msg)
  then have c: "65 \<le> (of_char c :: nat)" "(of_char c :: nat) \<le> 90" and t: "upper_text msg"
    by simp_all
  have "map_numbers_to_text_loop (pre @ concat (map letter_digits (c # msg))) (length pre) acc
      = map_numbers_to_text_loop (pre @ letter_digits c @ concat (map letter_digits msg)) (length pre) acc"
    by simp
  also have "\<dots> = map_numbers_to_text_loop ((pre @ letter_digits c) @ concat (map letter_digits msg))
        (length (pre @ letter_digits c)) (acc @ [c])"
    by (rule map_numbers_to_text_loop_letter [OF c])
  also have "\<dots> = Inr ((acc @ [c]) @ msg)" by (rule Cons.IH [OF t])
  finally show ?case by simp
qed

lemma map_numbers_to_text_encoded:
  "upper_text msg \<Longrightarrow> map_numbers_to_text (concat (map letter_digits msg)) = Inr msg"
  using map_numbers_to_text_loop_encoded [of msg "[]" "[]"] by (simp add: map_numbers_to_text_def)

lemma text_to_numbers_replicate_A:
  "text_to_numbers (replicate n CHR ''A'') = replicate (2 * n) CHR ''0''"
proof -
  have up: "upper_text (replicate n CHR ''A'')" by (simp add: upper_text_def)
  have "py_str 0 = str_nat 0" by (simp add: py_str_def)
  then have "letter_digits CHR ''A'' = replicate 2 CHR ''0''"
    by (simp add: letter_digits_def format_02d_def zfill_def str_nat_small digit_char_def
          numeral_2_eq_2 char_of_eq_iff)
  then have "concat (map letter_digits (replicate n CHR ''A'')) = replicate (2 * n) CHR ''0''"
    by (induction n) (simp_all add: numeral_2_eq_2)
  with text_to_numbers_upper [OF up] show ?thesis by simp
qed

subsection \<open>Decoding any digit string\<close>

lemma map_numbers_to_text_loop_done:
  "\<not> i < length s \<Longrightarrow> map_numbers_to_text_loop s i acc = Inr acc"
  by (subst map_numbers_to_text_loop.simps) simp

lemma map_numbers_to_text_loop_single:
  "i < length s \<Longrightarrow> \<not> i + 1 < length s \<Longrightarrow>
   map_numbers_to_text_loop s i acc = map_numbers_to_text_loop s (i + 2) acc"
  by (subst map_numbers_to_text_loop.simps) simp

lemma map_numbers_to_text_loop_pair:
  assumes "i + 1 < length s" and "digit_string (take 2 (drop i s))"
  shows "map_numbers_to_text_loop s i acc =
           map_numbers_to_text_loop s (i + 2)
             (if int (digits_val (take 2 (drop i s))) \<le> 25
              then acc @ [char_of (65 + int (digits_val (take 2 (drop i s))))] else acc)"
proof -
  have "take 2 (drop i s) \<noteq> []" using assms(1) by simp
  moreover have "length (take 2 (drop i s)) \<le> int_max_str_digits"
    by (simp add: int_max_str_digits_def)
  ultimately have "py_int (take 2 (drop i s)) = Inr (int (digits_val (take 2 (drop i s))))"
    using assms(2) by (intro py_int_digits)
  then show ?thesis using assms(1) by (subst map_numbers_to_text_loop.simps) (simp add: Let_def)
qed

lemma map_numbers_to_text_loop_total:
  assumes "digit_string s"
  shows "\<exists>t. map_numbers_to_text_loop s i acc = Inr t"
proof (induction "length s - i" arbitrary: i acc rule: less_induct)
  case less
  show ?case
  proof (cases "i < length s")
    case False
    then show ?thesis by (simp add: map_numbers_to_text_loop_done)
  next
    case True
    then have dec: "length s - (i + 2) < length s - i" by simp
    show ?thesis
    proof (cases "i + 1 < length s")
      case False
      with True less.hyps [OF dec] show ?thesis by (simp add: map_numbers_to_text_loop_single)
    next
      case two: True
      have "digit_string (take 2 (drop i s))"
        using assms by (simp add: digit_string_take digit_string_drop)
      from map_numbers_to_text_loop_pair [OF two this] less.hyps [OF dec] show ?thesis by simp
    qed
  qed
qed

lemma map_numbers_to_text_total: "digit_string s \<Longrightarrow> \<exists>t. map_numbers_to_text s = Inr t"
  by (simp add: map_numbers_to_text_def map_numbers_to_text_loop_total)

lemmas decode_eval = map_numbers_to_text_def map_numbers_to_text_loop_done
  map_numbers_to_text_loop_single map_numbers_to_text_loop_pair
  is_digit_def digits_val_def digit_val_def char_of_eq_iff

lemmas encode_eval = text_to_numbers_def py_upper_def format_02d_def py_str_def zfill_def
  str_nat_small str_nat_large digit_char_def char_of_eq_iff

section \<open>Properties of the RSA pipeline\<close>

lemma totient_ge_2:
  assumes "is_prime p" and "is_prime q" and "p \<noteq> q"
  shows "2 \<le> (p - 1) * (q - 1)"
proof -
  from assms have "2 \<le> p" "2 \<le> q" by (simp_all add: is_prime_def)
  with assms(3) have "(3 \<le> p \<and> 2 \<le> q) \<or> (2 \<le> p \<and> 3 \<le> q)" by auto
  then show ?thesis
  proof
    assume "3 \<le> p \<and> 2 \<le> q"
    then have "2 \<le> p - 1" "1 \<le> q - 1" by auto
    then have "2 * 1 \<le> (p - 1) * (q - 1)" by (rule mult_le_mono)
    then show ?thesis by simp
  next
    assume "2 \<le> p \<and> 3 \<le> q"
    then have "1 \<le> p - 1" "2 \<le> q - 1" by auto
    then have "1 * 2 \<le> (p - 1) * (q - 1)" by (rule mult_le_mono)
    then show ?thesis by simp
  qed
qed

lemma rsa_exponent_roundtrip:
  assumes "is_prime p" and "is_prime q" and "p \<noteq> q"
    and "1 \<le> e" and "0 \<le> d" and "(e * d) mod int ((p - 1) * (q - 1)) = 1"
    and "0 \<le> M" and "M < int (p * q)"
  shows "(M ^ nat e mod int (p * q)) ^ nat d mod int (p * q) = M"
proof -
  let ?phi = "(p - 1) * (q - 1)"
  let ?n = "p * q"
  define k where "k = nat ((e * d) div int ?phi)"
  have ed: "0 \<le> e * d" using assms(4,5) by simp
  then have "0 \<le> (e * d) div int ?phi" by (simp add: div_int_pos_iff)
  then have kk: "int k = (e * d) div int ?phi" by (simp add: k_def)
  have "e * d = int ?phi * ((e * d) div int ?phi) + (e * d) mod int ?phi"
    by (simp only: mult_div_mod_eq)
  then have "e * d = int ?phi * int k + 1" by (simp only: kk assms(6))
  then have "e * d = int (1 + k * ?phi)" by (simp only: of_nat_add of_nat_mult of_nat_1 mult.commute add.commute)
  then have "nat (e * d) = 1 + k * ?phi" by (metis nat_int)
  moreover have "nat (e * d) = nat e * nat d" using assms(4) by (simp add: nat_mult_distrib)
  ultimately have expo: "nat e * nat d = 1 + k * ?phi" by simp
  define a where "a = nat M"
  have M: "M = int a" using assms(7) by (simp add: a_def)
  have a: "a < ?n" using assms(8) unfolding M by (simp only: of_nat_less_iff)
  have "(M ^ nat e mod int ?n) ^ nat d mod int ?n = (M ^ nat e) ^ nat d mod int ?n"
    by (rule power_mod)
  also have "\<dots> = M ^ (1 + k * ?phi) mod int ?n" by (simp only: flip: power_mult expo)
  also have "\<dots> = int (a ^ (1 + k * ?phi) mod ?n)" by (simp only: M zmod_int of_nat_power)
  also have "\<dots> = int (a mod ?n)" by (simp only: rsa_identity [OF assms(1-3)])
  also have "\<dots> = M" using a M by simp
  finally show ?thesis .
qed

lemma encrypt_message_loop_eq:
  assumes "n \<noteq> 0" and "0 < e"
  shows "encrypt_message_loop blocks e n acc
           = Inr (acc @ map (\<lambda>(v, k). (v ^ nat e mod n, k)) blocks)"
  using assms
  by (induction blocks e n acc rule: encrypt_message_loop.induct)
     (simp_all add: modular_exponentiation_eq)

lemma decrypt_message_loop_segments:
  assumes "n \<noteq> 0" and "0 < d"
    and "\<forall>g \<in> set segs. digit_string g \<and> seg_ok m g \<and> length g \<le> int_max_str_digits \<and>
           (int (digits_val g) ^ nat e mod n) ^ nat d mod n = int (digits_val g)"
  shows "decrypt_message_loop (map (\<lambda>(v, k). (v ^ nat e mod n, k)) (map block_of segs)) d n acc
           = Inr (acc @ concat segs)"
  using assms(3)
proof (induction segs arbitrary: acc)
  case Nil
  show ?case by simp
next
  case (Cons g segs)
  then have g: "digit_string g" "g \<noteq> []" "even (length g)" "length g \<le> int_max_str_digits"
    and v: "(int (digits_val g) ^ nat e mod n) ^ nat d mod n = int (digits_val g)"
    by (simp_all add: seg_ok_def)
  have pow: "modular_exponentiation (int (digits_val g) ^ nat e mod n) d n = Inr (int (digits_val g))"
    using assms(1,2) v by (simp add: modular_exponentiation_eq)
  have lim: "py_str_limited (int (digits_val g)) = Inr (py_str (int (digits_val g)))"
    using g(1,2,4) by (rule py_str_limited_segment)
  have pad: "zfill (length g div 2 * 2) (py_str (int (digits_val g))) = g"
    using block_str_segment [OF g(1-3)] by (simp add: block_of_def)
  have "decrypt_message_loop (map (\<lambda>(v, k). (v ^ nat e mod n, k)) (map block_of (g # segs))) d n acc
          = decrypt_message_loop (map (\<lambda>(v, k). (v ^ nat e mod n, k)) (map block_of segs)) d n (acc @ g)"
    using pow lim pad by (simp add: block_of_def Let_def)
  also have "\<dots> = Inr ((acc @ g) @ concat segs)" using Cons by simp
  finally show ?case by simp
qed

section \<open>Claims about the modular arithmetic kernel\<close>

subsection \<open>C5: modular exponentiation\<close>

text \<open>
  Claim C5 as stated: for \<open>b \<ge> 0\<close>, \<open>e \<ge> 0\<close> and \<open>m \<ge> 1\<close> the result is
  \<open>b ^ e mod m\<close>, and it is 1 for \<open>e = 0\<close>. The two halves disagree at
  \<open>m = 1\<close>, \<open>e = 0\<close>, where \<open>b ^ 0 mod 1 = 0\<close>: both implementations return the
  initial \<^verbatim>\<open>result = 1\<close> without reducing it, so the first half fails there.
\<close>

theorem C5_counterexample:
  "modular_exponentiation_traced 0 0 1 \<noteq> Inr (0 ^ nat 0 mod 1) \<and>
   modular_exponentiation 0 0 1 \<noteq> Inr (0 ^ nat 0 mod 1)"
  by (simp add: modular_exponentiation_traced_def modular_exponentiation_def
        modular_exponentiation_traced_loop.simps modular_exponentiation_loop.simps)

text \<open>
  Claim C5, amended: for \<open>b \<ge> 0\<close>, \<open>e \<ge> 0\<close> and \<open>m \<ge> 1\<close>, both
  \<^verbatim>\<open>modular_exponentiation_traced\<close> and \<^verbatim>\<open>modular_exponentiation\<close> return
  \<open>b ^ e mod m\<close> whenever \<open>e \<ge> 1\<close> or \<open>m \<ge> 2\<close>, and return 1 when \<open>e = 0\<close>, for every
  \<open>m \<ge> 1\<close> and every base.
\<close>

theorem C5_mod_pow:
  assumes "0 \<le> b" and "0 \<le> e" and "1 \<le> m"
  shows "(1 \<le> e \<or> 2 \<le> m \<longrightarrow>
            modular_exponentiation_traced b e m = Inr (b ^ nat e mod m) \<and>
            modular_exponentiation b e m = Inr (b ^ nat e mod m)) \<and>
         (e = 0 \<longrightarrow>
            modular_exponentiation_traced b e m = Inr 1 \<and>
            modular_exponentiation b e m = Inr 1)"
proof -
  from assms(3) have m: "m \<noteq> 0" by simp
  have small: "2 \<le> m \<Longrightarrow> 1 mod m = 1" by simp
  show ?thesis
    using assms(2) small
    by (auto simp add: modular_exponentiation_eq [OF m] modular_exponentiation_traced_eq [OF m])
qed

theorem C5_mod_pow_witness:
  "modular_exponentiation_traced 4 13 497 = Inr 445 \<and>
   modular_exponentiation 4 13 497 = Inr 445 \<and>
   modular_exponentiation_traced 4 0 1 = Inr 1 \<and>
   modular_exponentiation 4 0 1 = Inr 1"
  using C5_mod_pow [of 4 13 497] C5_mod_pow [of 4 0 1] by simp

subsection \<open>C7: negative exponents\<close>

text \<open>
  Claim C7 as stated: a negative exponent makes the function fail with an error and
  return no value. Neither implementation validates its arguments: the loop guard
  \<^verbatim>\<open>exp > 0\<close> is false at once and the initial \<^verbatim>\<open>result = 1\<close> is returned.
\<close>

theorem C7_counterexample:
  "modular_exponentiation_traced 2 (- 1) 5 = Inr 1 \<and> modular_exponentiation 2 (- 1) 5 = Inr 1"
  by (simp add: modular_exponentiation_traced_def modular_exponentiation_def
        modular_exponentiation_traced_loop.simps modular_exponentiation_loop.simps)

text \<open>
  Claim C7, amended: for every base, every modulus \<open>m \<ge> 1\<close> and every exponent
  \<open>e < 0\<close>, both implementations return 1 and raise nothing.
\<close>

theorem C7_negative_exponent_returns_one:
  assumes "1 \<le> m" and "e < 0"
  shows "modular_exponentiation_traced b e m = Inr 1 \<and> modular_exponentiation b e m = Inr 1"
proof -
  from assms(1) have m: "m \<noteq> 0" by simp
  show ?thesis
    using assms(2)
    by (simp add: modular_exponentiation_eq [OF m] modular_exponentiation_traced_eq [OF m])
qed

theorem C7_negative_exponent_witness:
  "modular_exponentiation_traced 7 (- 3) 10 = Inr 1 \<and> modular_exponentiation 7 (- 3) 10 = Inr 1"
  using C7_negative_exponent_returns_one [of 10 "- 3" 7] by simp

subsection \<open>C8: extended Euclid\<close>

text \<open>
  Claim C8: for all integers the first component is the non-negative \<open>gcd a b\<close>, and the
  base case \<open>b = 0\<close> returns \<open>(\<bar>a\<bar>, sign a, 0)\<close>. \<^verbatim>\<open>extended_gcd\<close> of \<^verbatim>\<open>RSA.py\<close>
  returns \<^verbatim>\<open>a, 1, 0\<close> in the base case, so at \<open>a = -5\<close>, \<open>b = 0\<close> its first component
  is \<open>-5\<close> where the gcd is 5; \<^verbatim>\<open>extended_gcd\<close> of \<^verbatim>\<open>test_rsa.py\<close> returns
  \<open>(5, -1, 0)\<close> there, as the claim says. The call is a base case: it nests no further
  call and returns the same at every depth that admits the call itself. Lemma
  \<open>extended_gcd_test_rsa_correct\<close> shows that the latter function returns the gcd and
  Bezout coefficients on all integers whenever it returns, and lemma
  \<open>extended_gcd_correct_nonneg\<close> that the former does so when neither argument is
  negative.
\<close>

theorem C8_extended_gcd_negative:
  "extended_gcd recursion_limit (- 5) 0 = Inr (- 5, 1, 0) \<and> gcd (- 5 :: int) 0 = 5 \<and>
   extended_gcd_test_rsa recursion_limit (- 5) 0 = Inr (5, - 1, 0)"
proof -
  have e: "recursion_limit = Suc 999" by (simp add: recursion_limit_def)
  have "extended_gcd recursion_limit (- 5) 0 = Inr (- 5, 1, 0)"
    by (subst e) (rule extended_gcd_base)
  moreover have "extended_gcd_test_rsa (Suc 999) (- 5) 0 = Inr (\<bar>- 5\<bar>, if (- 5 :: int) \<ge> 0 then 1 else - 1, 0)"
    by (rule extended_gcd_test_rsa_base)
  then have "extended_gcd_test_rsa recursion_limit (- 5) 0 = Inr (5, - 1, 0)"
    by (subst e) simp
  ultimately show ?thesis by simp
qed

subsection \<open>C6: modular inverse\<close>

text \<open>
  Claim C6 as stated: whenever \<open>gcd a m = 1\<close> the call returns an \<open>x\<close> in \<open>[0, m)\<close> with
  \<open>(a * x) mod m = 1\<close>. It fails in two ways.
  \<^item> At \<open>m = 1\<close> every \<open>a\<close> is coprime to \<open>m\<close>, and both implementations return 0, for
    which \<open>(a * 0) mod 1 = 0\<close>.
  \<^item> The recursion of \<^verbatim>\<open>extended_gcd\<close> is as deep as Euclid's algorithm is long. On
    the consecutive Fibonacci numbers \<open>fib 1100\<close> and \<open>fib 1101\<close>, which are coprime, it
    needs more frames than the recursion limit of 1000 leaves, and both implementations
    raise \<^verbatim>\<open>RecursionError\<close>.
\<close>

theorem C6_counterexample:
  "(gcd (5::int) 1 = 1 \<and> modinv recursion_limit 5 1 = Inr 0 \<and>
    modular_inverse recursion_limit 5 1 = Inr 0 \<and> (5 * 0) mod 1 \<noteq> (1::int)) \<and>
   (gcd (int (fib 1100)) (int (fib (Suc 1100))) = 1 \<and> 2 \<le> int (fib (Suc 1100)) \<and>
    modinv recursion_limit (int (fib 1100)) (int (fib (Suc 1100))) = Inl RecursionError \<and>
    modular_inverse recursion_limit (int (fib 1100)) (int (fib (Suc 1100)))
      = Inl RecursionError)"
proof -
  have one: "gcd (5::int) 1 = 1" "modinv recursion_limit 5 1 = Inr 0"
    "modular_inverse recursion_limit 5 1 = Inr 0" "(5 * 0) mod 1 \<noteq> (1::int)"
    by (simp, code_simp, code_simp, simp)
  have n: "(2::nat) \<le> 1100" and f: "recursion_limit \<le> 1100"
    by (simp_all add: recursion_limit_def)
  have "3 \<le> Suc 1100" by simp
  from fib_ge_2 [OF this] have "int 2 \<le> int (fib (Suc 1100))" by (simp only: of_nat_le_iff)
  then have big: "2 \<le> int (fib (Suc 1100))" by (simp only: of_nat_numeral)
  from one fib_coprime_int [of 1100] big modinv_fib_deep [OF n f] show ?thesis
    by (intro conjI)
qed

text \<open>
  Claim C6, amended: let \<open>\<bar>m\<bar> < 2 ^ k\<close> and let the interpreter have room for \<open>2 * k + 1\<close>
  nested calls of \<^verbatim>\<open>extended_gcd\<close> (with the recursion limit of 1000, any modulus below
  \<open>2 ^ 400\<close> called from a depth of at most 199). Then for \<open>m \<ge> 2\<close> and every \<open>a\<close> with
  \<open>gcd a m = 1\<close>, both \<^verbatim>\<open>modinv\<close> and \<^verbatim>\<open>modular_inverse\<close> return an \<open>x\<close> in \<open>[0, m)\<close>
  with \<open>(a * x) mod m = 1\<close>; and for all integers \<open>a\<close>, \<open>m\<close> with \<open>gcd a m \<noteq> 1\<close> both raise
  \<^verbatim>\<open>ValueError\<close>, the exception that stands for the spec's NoInverseError.
\<close>

theorem C6_modular_inverse:
  assumes "\<bar>m\<bar> < 2 ^ k" and "2 * k + 1 \<le> frames"
  shows "(2 \<le> m \<and> gcd a m = 1 \<longrightarrow>
            (\<exists>x. modinv frames a m = Inr x \<and> 0 \<le> x \<and> x < m \<and> (a * x) mod m = 1) \<and>
            (\<exists>x. modular_inverse frames a m = Inr x \<and> 0 \<le> x \<and> x < m \<and> (a * x) mod m = 1)) \<and>
         (gcd a m \<noteq> 1 \<longrightarrow>
            modinv frames a m = Inl ValueError \<and> modular_inverse frames a m = Inl ValueError)"
proof (intro conjI impI)
  assume h: "2 \<le> m \<and> gcd a m = 1"
  then have m: "2 \<le> m" and co: "gcd a m = 1" by simp_all
  from assms(1) have less: "m < 2 ^ k" by simp
  show "\<exists>x. modinv frames a m = Inr x \<and> 0 \<le> x \<and> x < m \<and> (a * x) mod m = 1"
    using m co less assms(2) by (rule modinv_coprime)
  show "\<exists>x. modular_inverse frames a m = Inr x \<and> 0 \<le> x \<and> x < m \<and> (a * x) mod m = 1"
    using m co less assms(2) by (rule modular_inverse_coprime)
next
  assume "gcd a m \<noteq> 1"
  then show "modinv frames a m = Inl ValueError" using assms by (rule modinv_not_coprime)
next
  assume "gcd a m \<noteq> 1"
  then show "modular_inverse frames a m = Inl ValueError"
    using assms by (rule modular_inverse_not_coprime)
qed

theorem C6_modular_inverse_witness:
  "(\<exists>x. modinv recursion_limit 17 3120 = Inr x \<and> 0 \<le> x \<and> x < 3120 \<and>
        (17 * x) mod 3120 = 1) \<and>
   (\<exists>x. modular_inverse recursion_limit 17 3120 = Inr x \<and> 0 \<le> x \<and> x < 3120 \<and>
        (17 * x) mod 3120 = 1) \<and>
   modinv recursion_limit 2 26 = Inl ValueError \<and>
   modular_inverse recursion_limit 2 26 = Inl ValueError"
proof -
  have a: "\<bar>3120 :: int\<bar> < 2 ^ 12" and b: "\<bar>26 :: int\<bar> < 2 ^ 12" by simp_all
  have f: "2 * 12 + 1 \<le> recursion_limit" by (simp add: recursion_limit_def)
  show ?thesis
    using C6_modular_inverse [OF a f, of 17] C6_modular_inverse [OF b f, of 2]
      gcd_17_3120 gcd_2_26
    by simp
qed

section \<open>Claims about the primality oracle and the codec\<close>

subsection \<open>C10: zero rounds\<close>

text \<open>
  Claim C10: for every odd \<open>n \<ge> 5\<close>, \<^verbatim>\<open>is_probable_prime(n, 0)\<close> returns \<open>True\<close>,
  whatever the random source would draw: the factoring loop ends and no round is run.
  The composites 9 and 15 are instances.
\<close>

theorem C10_zero_rounds:
  assumes "odd n" and "5 \<le> n"
  shows "is_probable_prime rnd n 0 = Some True"
proof -
  from assms(2) have "0 < n - 1" by simp
  then obtain r d where "factor_twos 0 (n - 1) = Some (r, d)"
    using factor_twos_returns by blast
  moreover from assms have "\<not> n < 2" "n \<noteq> 2" "n \<noteq> 3" "n mod 2 \<noteq> 0"
    by (simp_all add: odd_iff_mod_2_eq_one)
  ultimately show ?thesis by (simp add: is_probable_prime_def)
qed

theorem C10_zero_rounds_witness:
  "is_probable_prime (constant_draws 2) 9 0 = Some True \<and>
   is_probable_prime (constant_draws 2) 15 0 = Some True"
  using C10_zero_rounds [of 9 "constant_draws 2"] C10_zero_rounds [of 15 "constant_draws 2"]
  by simp

subsection \<open>C9: totality of the codec\<close>

text \<open>
  Claim C9: \<^verbatim>\<open>encode\<close> returns a digit string for every input string and never raises.
  \<^verbatim>\<open>map_text_to_numbers\<close> of \<^verbatim>\<open>RSA.py\<close> raises \<^verbatim>\<open>TypeError\<close> on the one-character
  string \<^verbatim>\<open>U+00DF\<close>: the character is alphabetic, its upper case is the two-character
  string \<^verbatim>\<open>SS\<close>, which lies between \<^verbatim>\<open>'A'\<close> and \<^verbatim>\<open>'Z'\<close> as a string, and \<^verbatim>\<open>ord\<close>
  rejects it. \<^verbatim>\<open>text_to_numbers\<close> of \<^verbatim>\<open>test_rsa.py\<close> upper-cases the whole text first
  and returns \<^verbatim>\<open>1818\<close> on the same input. Decoding is total: lemma
  \<open>map_numbers_to_text_total\<close> shows that \<^verbatim>\<open>map_numbers_to_text\<close> returns on every string of
  decimal digits.
\<close>

theorem C9_encode_raises:
  "map_text_to_numbers [CHR 0xDF] = Inl TypeError \<and> text_to_numbers [CHR 0xDF] = ''1818''"
  by code_simp

section \<open>Claims about the block packer\<close>

subsection \<open>C2: unpacking undoes packing\<close>

text \<open>
  Claim C2 as stated: \<open>unpack (pack s m) = s\<close> for every digit string \<open>s\<close> of even length
  and every modulus \<open>m > 25\<close>. Take the digit string of 2151 groups \<^verbatim>\<open>00\<close>, the encoding
  of 2151 letters \<^verbatim>\<open>A\<close>, and the modulus 26. Every prefix has the value 0, which is
  below the modulus, so the accumulator grows to 4300 digits; the next
  \<^verbatim>\<open>int(test_block)\<close> is called on 4302 digits and raises \<^verbatim>\<open>ValueError\<close>.
  \<^verbatim>\<open>split_into_blocks\<close> returns no blocks, and there is nothing to unpack.
\<close>

theorem C2_counterexample:
  "digit_string (replicate 4302 CHR ''0'') \<and> even (length (replicate 4302 CHR ''0'')) \<and>
   groups_below (replicate 4302 CHR ''0'') 26 \<and> (25::int) < 26 \<and>
   split_into_blocks (replicate 4302 CHR ''0'') 26 = Some (Inl ValueError)"
proof -
  have g: "groups_below (replicate (2 * 2151) CHR ''0'') 26" by (rule groups_below_zeros) simp
  have "split_into_blocks (replicate 4302 CHR ''0'') 26 = Some (Inl ValueError)"
    by (rule split_into_blocks_too_long) (simp_all add: int_max_str_digits_def)
  with g show ?thesis by simp
qed

text \<open>
  Claim C2, amended: for every digit string \<open>s\<close> of even length whose two-digit groups
  are letter indices (00 to 25) and that has at most 4300 digits, and for every modulus
  \<open>m > 25\<close>, \<^verbatim>\<open>split_into_blocks\<close> returns and \<^verbatim>\<open>reconstruct_numeric_string\<close> of its
  blocks returns \<open>s\<close>.
\<close>

theorem C2_pack_unpack:
  assumes "digit_string s" and "even (length s)" and "groups_below s 26"
    and "length s \<le> int_max_str_digits" and "25 < m"
  shows "\<exists>bs. split_into_blocks s m = Some (Inr bs) \<and> reconstruct_numeric_string bs = Inr s"
proof -
  from assms(3,5) have "groups_below s m" by (intro groups_below_mono [of s 26 m]) simp_all
  from split_into_blocks_returns [OF assms(1,2) this assms(4)] obtain bs
    where bs: "split_into_blocks s m = Some (Inr bs)" by blast
  from split_into_blocks_segments_bounded [OF assms(1) bs] obtain segs
    where segs: "bs = map block_of segs" "concat segs = s"
      "\<forall>g \<in> set segs. seg_ok m g \<and> length g \<le> int_max_str_digits" by blast
  from assms(1) segs(2) have "\<forall>g \<in> set segs. digit_string g"
    using digit_string_concat by blast
  with segs(3) have "reconstruct_numeric_string (map block_of segs) = Inr (concat segs)"
    by (intro reconstruct_segments [of segs m]) blast
  with bs segs(1,2) show ?thesis by simp
qed

theorem C2_pack_unpack_witness:
  "\<exists>bs. split_into_blocks ''0704111114'' 3233 = Some (Inr bs) \<and>
        reconstruct_numeric_string bs = Inr ''0704111114''"
proof -
  have "digit_string ''0704111114''" by code_simp
  moreover have "even (length ''0704111114'')" by simp
  moreover have "groups_below ''0704111114'' 26"
    by (simp add: groups_below_def digits_val_def digit_val_def)
  moreover have "length ''0704111114'' \<le> int_max_str_digits"
    by (simp add: int_max_str_digits_def)
  moreover have "(25::int) < 3233" by simp
  ultimately show ?thesis by (rule C2_pack_unpack)
qed

subsection \<open>C3: termination of the greedy scan\<close>

text \<open>
  Claim C3 as stated: with \<open>m > 25\<close> the scan terminates on every digit string, consumes
  the whole input and emits the trailing accumulator. On the digit string of 4302 zeros
  (2151 groups \<^verbatim>\<open>00\<close>) with the modulus 3233 the scan ends after 4300 digits with the
  \<^verbatim>\<open>ValueError\<close> of \<^verbatim>\<open>int(test_block)\<close>: the last group is not consumed and no block
  is emitted.
\<close>

theorem C3_counterexample:
  "digit_string (replicate 4302 CHR ''0'') \<and> even (length (replicate 4302 CHR ''0'')) \<and>
   groups_below (replicate 4302 CHR ''0'') 26 \<and> (25::int) < 3233 \<and>
   split_into_blocks_inner (replicate 4302 CHR ''0'') 3233 [] 0 0 = Inl ValueError \<and>
   split_into_blocks (replicate 4302 CHR ''0'') 3233 = Some (Inl ValueError)"
proof -
  have g: "groups_below (replicate (2 * 2151) CHR ''0'') 26" by (rule groups_below_zeros) simp
  have i: "split_into_blocks_inner (replicate 4302 CHR ''0'') 3233 [] 0 0 = Inl ValueError"
    by (rule split_into_blocks_inner_too_long) (simp_all add: int_max_str_digits_def)
  have "split_into_blocks (replicate 4302 CHR ''0'') 3233 = Some (Inl ValueError)"
    by (rule split_into_blocks_too_long) (simp_all add: int_max_str_digits_def)
  with g i show ?thesis by simp
qed

text \<open>
  Claim C3, amended: for every digit string \<open>s\<close> of even length whose two-digit groups
  are letter indices (00 to 25) and that has at most 4300 digits, and for every modulus
  \<open>m > 25\<close>, the scan terminates and returns blocks whose letter counts add up to the
  whole input; when the input is not empty, the last block is the trailing accumulator:
  it holds at least one letter and its value is the parse of the final \<open>2 * k\<close> digits of
  \<open>s\<close>.
\<close>

theorem C3_pack_terminates:
  assumes "digit_string s" and "even (length s)" and "groups_below s 26"
    and "length s \<le> int_max_str_digits" and "25 < m"
  shows "\<exists>bs. split_into_blocks s m = Some (Inr bs) \<and>
              sum_list (map (\<lambda>(v, k). 2 * k) bs) = length s \<and>
              (s \<noteq> [] \<longrightarrow> bs \<noteq> [] \<and>
                 (case last bs of (v, k) \<Rightarrow>
                    1 \<le> k \<and> v = int (digits_val (drop (length s - 2 * k) s))))"
proof -
  from assms(3,5) have "groups_below s m" by (intro groups_below_mono [of s 26 m]) simp_all
  from split_into_blocks_returns [OF assms(1,2) this assms(4)] obtain bs
    where bs: "split_into_blocks s m = Some (Inr bs)" by blast
  from split_into_blocks_segments [OF assms(1) bs] obtain segs
    where segs: "bs = map block_of segs" "concat segs = s" "\<forall>g \<in> set segs. seg_ok m g" by blast
  then have ev: "\<forall>g \<in> set segs. even (length g)" by (simp add: seg_ok_def)
  have total: "sum_list (map (\<lambda>(v, k). 2 * k) bs) = length s"
    using sum_block_lengths [OF ev] segs(1,2) by simp
  have final: "bs \<noteq> [] \<and> (case last bs of (v, k) \<Rightarrow>
                    1 \<le> k \<and> v = int (digits_val (drop (length s - 2 * k) s)))" if "s \<noteq> []"
  proof -
    from that segs(2) have ne: "segs \<noteq> []" by auto
    let ?g = "last segs"
    from ne segs(3) have ok: "seg_ok m ?g" by simp
    then have len: "2 * (length ?g div 2) = length ?g" "?g \<noteq> []" by (simp_all add: seg_ok_def)
    have "concat (butlast segs @ [?g]) = s"
      using ne segs(2) by simp
    then have "s = concat (butlast segs) @ ?g" by simp
    then have "drop (length s - length ?g) s = drop (length (concat (butlast segs))) (concat (butlast segs) @ ?g)"
      by simp
    then have "drop (length s - length ?g) s = ?g" by simp
    moreover have "last bs = block_of ?g" using ne segs(1) by (simp add: last_map)
    moreover have "1 \<le> length ?g div 2" using len by (cases "length ?g div 2") auto
    ultimately show ?thesis using ne segs(1) len by (simp add: block_of_def)
  qed
  show ?thesis
  proof (intro exI [of _ bs] conjI impI)
    show "split_into_blocks s m = Some (Inr bs)" by (rule bs)
    show "sum_list (map (\<lambda>(v, k). 2 * k) bs) = length s" by (rule total)
  next
    assume "s \<noteq> []"
    from final [OF this] show "bs \<noteq> []" ..
  next
    assume "s \<noteq> []"
    from final [OF this]
    show "case last bs of (v, k) \<Rightarrow>
            1 \<le> k \<and> v = int (digits_val (drop (length s - 2 * k) s))" ..
  qed
qed

theorem C3_pack_terminates_witness:
  "\<exists>bs. split_into_blocks ''0704111114'' 3233 = Some (Inr bs) \<and>
        sum_list (map (\<lambda>(v, k). 2 * k) bs) = length ''0704111114'' \<and> bs \<noteq> [] \<and>
        (case last bs of (v, k) \<Rightarrow>
           1 \<le> k \<and>
           v = int (digits_val (drop (length ''0704111114'' - 2 * k) ''0704111114'')))"
proof -
  define s where "s = ''0704111114''"
  have d: "digit_string s" by (simp add: s_def is_digit_def)
  have ev: "even (length s)" by (simp add: s_def)
  have gb: "groups_below s 26"
    by (simp add: s_def groups_below_def digits_val_def digit_val_def)
  have len: "length s \<le> int_max_str_digits" by (simp add: s_def int_max_str_digits_def)
  have m: "(25::int) < 3233" by simp
  have ne: "s \<noteq> []" by (simp add: s_def)
  from C3_pack_terminates [OF d ev gb len m] obtain bs
    where bs: "split_into_blocks s 3233 = Some (Inr bs) \<and>
      sum_list (map (\<lambda>(v, k). 2 * k) bs) = length s \<and>
      (s \<noteq> [] \<longrightarrow> bs \<noteq> [] \<and>
         (case last bs of (v, k) \<Rightarrow>
            1 \<le> k \<and> v = int (digits_val (drop (length s - 2 * k) s))))"
    by (rule exE)
  note ret = bs [THEN conjunct1]
  note total = bs [THEN conjunct2, THEN conjunct1]
  note final = bs [THEN conjunct2, THEN conjunct2, THEN mp, OF ne]
  have "split_into_blocks s 3233 = Some (Inr bs) \<and>
        sum_list (map (\<lambda>(v, k). 2 * k) bs) = length s \<and> bs \<noteq> [] \<and>
        (case last bs of (v, k) \<Rightarrow>
           1 \<le> k \<and> v = int (digits_val (drop (length s - 2 * k) s)))"
    using ret total final [THEN conjunct1] final [THEN conjunct2] by (intro conjI)
  then have "\<exists>bs. split_into_blocks s 3233 = Some (Inr bs) \<and>
        sum_list (map (\<lambda>(v, k). 2 * k) bs) = length s \<and> bs \<noteq> [] \<and>
        (case last bs of (v, k) \<Rightarrow>
           1 \<le> k \<and> v = int (digits_val (drop (length s - 2 * k) s)))"
    by (rule exI)
  then show ?thesis by (simp only: s_def)
qed

subsection \<open>C4: invariant of the emitted blocks\<close>

text \<open>
  Claim C4: whenever \<^verbatim>\<open>split_into_blocks\<close> returns on a digit string, every block
  \<open>(v, k)\<close> it emitted is the parse of \<open>k\<close> whole two-digit groups (a segment of \<open>2 * k\<close>
  digits that starts at an even position), \<open>v\<close> is below the modulus, \<open>k \<ge> 1\<close>, and the
  decimal representation of \<open>v\<close> has at most \<open>2 * k\<close> digits.
\<close>

theorem C4_block_invariant:
  assumes "digit_string s" and "split_into_blocks s m = Some (Inr bs)" and "(v, k) \<in> set bs"
  shows "(\<exists>pre seg post. s = pre @ seg @ post \<and> even (length pre) \<and> length seg = 2 * k \<and>
            v = int (digits_val seg)) \<and>
         v < m \<and> 1 \<le> k \<and> length (py_str v) \<le> 2 * k"
proof -
  from split_into_blocks_segments [OF assms(1,2)] obtain segs
    where segs: "bs = map block_of segs" "concat segs = s" "\<forall>g \<in> set segs. seg_ok m g" by blast
  from assms(3) segs(1) obtain g where g: "g \<in> set segs" "(v, k) = block_of g" by auto
  from g(1) obtain xs ys where split: "segs = xs @ g # ys" by (auto dest: split_list)
  from segs(3) g(1) have ok: "g \<noteq> []" "even (length g)" "int (digits_val g) < m"
    by (simp_all add: seg_ok_def)
  from g(2) ok(2) have vk: "v = int (digits_val g)" "length g = 2 * k"
    by (simp_all add: block_of_def)
  have "\<forall>h \<in> set xs. even (length h)" using segs(3) split by (simp add: seg_ok_def)
  then have "even (length (concat xs))" by (rule even_length_concat)
  moreover have "s = concat xs @ g @ concat ys" using segs(2) split by simp
  ultimately have whole: "\<exists>pre seg post. s = pre @ seg @ post \<and> even (length pre) \<and>
      length seg = 2 * k \<and> v = int (digits_val seg)"
    using vk by blast
  have "digit_string g" using assms(1) segs(2) g(1) digit_string_concat by blast
  from py_str_length_segment [OF this ok(1)] vk
  have "length (py_str v) \<le> 2 * k" by simp
  moreover have "1 \<le> k" using vk(2) ok(1) by (cases k) auto
  ultimately show ?thesis using whole ok(3) vk(1) by simp
qed

theorem C4_block_invariant_witness:
  "(\<exists>pre seg post. ''0704111114'' = pre @ seg @ post \<and> even (length pre) \<and>
        length seg = 2 * 2 \<and> (1111::int) = int (digits_val seg)) \<and>
   (1111::int) < 3233 \<and> (1::nat) \<le> 2 \<and> length (py_str 1111) \<le> 2 * 2"
proof -
  have d: "digit_string ''0704111114''" by (simp add: is_digit_def)
  have r: "split_into_blocks ''0704111114'' 3233 = Some (Inr [(704, 2), (1111, 2), (14, 1)])"
    by (simp add: pack_eval)
  have m: "(1111, 2) \<in> set [(704 :: int, 2 :: nat), (1111, 2), (14, 1)]" by simp
  show ?thesis using C4_block_invariant [OF d r m] .
qed

section \<open>Claim about the RSA pipeline\<close>

subsection \<open>C1: decryption undoes encryption\<close>

text \<open>
  Claim C1 as stated: for probable primes \<open>p \<noteq> q\<close> and \<open>e\<close> coprime to \<open>(p - 1) * (q - 1)\<close>,
  decrypting the encryption of a text gives the text back, for every text of alphabetic
  characters. It fails in five ways, each at keys that meet the stated conditions:
  \<^item> a lower-case letter comes back in upper case (\<^verbatim>\<open>a\<close> gives \<^verbatim>\<open>A\<close> with
    \<open>p = 61\<close>, \<open>q = 53\<close>, \<open>e = 17\<close>);
  \<^item> when \<open>p * q \<le> 25\<close> a letter index can reach the modulus and the packer never
    returns (\<^verbatim>\<open>Z\<close> with \<open>p = 3\<close>, \<open>q = 5\<close>, \<open>e = 3\<close>);
  \<^item> a negative exponent encrypts every block to 1 (\<^verbatim>\<open>A\<close> gives \<^verbatim>\<open>B\<close> with \<open>e = -1\<close>);
  \<^item> a composite that passes the primality oracle breaks the RSA identity: 25 passes
    every round whose random base is 7, and with \<open>p = 25\<close>, \<open>q = 3\<close>, \<open>e = 5\<close> the text
    \<^verbatim>\<open>C\<close> comes back empty;
  \<^item> on the text of 2151 letters \<^verbatim>\<open>A\<close> the packer's accumulator outgrows the 4300
    digits that \<^verbatim>\<open>int\<close> accepts, and \<^verbatim>\<open>encrypt_message\<close> raises \<^verbatim>\<open>ValueError\<close>
    (\<open>p = 61\<close>, \<open>q = 53\<close>, \<open>e = 17\<close>).
\<close>

theorem C1_counterexample:
  "(py_isalpha CHR ''a'' \<and> is_prime 61 \<and> is_prime 53 \<and> gcd (17::int) 3120 = 1 \<and>
    modular_inverse recursion_limit 17 3120 = Inr 2753 \<and>
    encrypt_message ''a'' 17 3233 = Some (Inr [(0, 1)]) \<and>
    decrypt_message [(0, 1)] 2753 3233 = Inr ''A'') \<and>
   (is_prime 3 \<and> is_prime 5 \<and> gcd (3::int) 8 = 1 \<and> encrypt_message ''Z'' 3 15 = None) \<and>
   (gcd (- 1 :: int) 3120 = 1 \<and> modular_inverse recursion_limit (- 1) 3120 = Inr 3119 \<and>
    encrypt_message ''A'' (- 1) 3233 = Some (Inr [(1, 1)]) \<and>
    decrypt_message [(1, 1)] 3119 3233 = Inr ''B'') \<and>
   (is_probable_prime (constant_draws 7) 25 10 = Some True \<and>
    is_probable_prime (constant_draws 7) 3 10 = Some True \<and>
    gcd (5::int) 48 = 1 \<and> modular_inverse recursion_limit 5 48 = Inr 29 \<and>
    encrypt_message ''C'' 5 75 = Some (Inr [(32, 1)]) \<and>
    decrypt_message [(32, 1)] 29 75 = Inr []) \<and>
   (upper_text (replicate 2151 CHR ''A'') \<and>
    encrypt_message (replicate 2151 CHR ''A'') 17 3233 = Some (Inl ValueError))"
proof -
  have lower: "py_isalpha CHR ''a''" "is_prime 61" "is_prime 53" "gcd (17::int) 3120 = 1"
    "modular_inverse recursion_limit 17 3120 = Inr 2753"
    by (simp add: py_isalpha_def, code_simp, code_simp, code_simp, code_simp)
  have lower_enc: "encrypt_message ''a'' 17 3233 = Some (Inr [(0, 1)])"
    by (simp add: encrypt_message_def encode_eval pack_eval modular_exponentiation_eq)
  have lower_dec: "decrypt_message [(0, 1)] 2753 3233 = Inr ''A''"
    by (simp add: decrypt_message_def modular_exponentiation_eq py_str_limited_def
          int_max_str_digits_def encode_eval decode_eval)
  have small: "is_prime 3" "is_prime 5" "gcd (3::int) 8 = 1"
    by code_simp+
  have "split_into_blocks_inner ''25'' 15 [] 0 0 = Inr ([], 0, 0)" by (simp add: pack_eval)
  then have "split_into_blocks_outer ''25'' 15 [] 0 = None"
    by (intro split_into_blocks_outer_stuck) simp_all
  moreover have "text_to_numbers ''Z'' = ''25''" by (simp add: encode_eval)
  ultimately have small_enc: "encrypt_message ''Z'' 3 15 = None"
    by (simp add: encrypt_message_def split_into_blocks_def)
  have neg: "gcd (- 1 :: int) 3120 = 1" "modular_inverse recursion_limit (- 1) 3120 = Inr 3119"
    by code_simp+
  have neg_enc: "encrypt_message ''A'' (- 1) 3233 = Some (Inr [(1, 1)])"
    by (simp add: encrypt_message_def encode_eval pack_eval modular_exponentiation_eq)
  have neg_dec: "decrypt_message [(1, 1)] 3119 3233 = Inr ''B''"
    by (simp add: decrypt_message_def modular_exponentiation_eq py_str_limited_def
          int_max_str_digits_def encode_eval decode_eval)
  have liar: "is_probable_prime (constant_draws 7) 25 10 = Some True"
    "is_probable_prime (constant_draws 7) 3 10 = Some True"
    "gcd (5::int) 48 = 1" "modular_inverse recursion_limit 5 48 = Inr 29"
    by code_simp+
  have liar_enc: "encrypt_message ''C'' 5 75 = Some (Inr [(32, 1)])"
    by (simp add: encrypt_message_def encode_eval pack_eval modular_exponentiation_eq)
  have liar_dec: "decrypt_message [(32, 1)] 29 75 = Inr []"
    by (simp add: decrypt_message_def modular_exponentiation_eq py_str_limited_def
          int_max_str_digits_def encode_eval decode_eval)
  have long: "upper_text (replicate 2151 CHR ''A'')" by (simp add: upper_text_def)
  have "split_into_blocks (replicate (2 * 2151) CHR ''0'') 3233 = Some (Inl ValueError)"
    by (rule split_into_blocks_too_long) (simp_all add: int_max_str_digits_def)
  then have long_enc: "encrypt_message (replicate 2151 CHR ''A'') 17 3233 = Some (Inl ValueError)"
    by (simp add: encrypt_message_def text_to_numbers_replicate_A)
  from lower lower_enc lower_dec small small_enc neg neg_enc neg_dec liar liar_enc liar_dec
    long long_enc
  show ?thesis by (intro conjI)
qed

text \<open>
  Claim C1, amended: for all primes \<open>p \<noteq> q\<close> with \<open>p * q > 25\<close> and every \<open>e \<ge> 1\<close> with
  \<open>gcd e ((p - 1) * (q - 1)) = 1\<close>, with \<open>n = p * q\<close>, when \<open>(p - 1) * (q - 1) < 2 ^ k\<close> and
  the interpreter has room for \<open>2 * k + 1\<close> nested calls of \<^verbatim>\<open>extended_gcd\<close>:
  \<^verbatim>\<open>modular_inverse\<close> returns the private exponent \<open>d\<close>, \<^verbatim>\<open>encrypt_message\<close> returns, and
  \<^verbatim>\<open>decrypt_message\<close> of its blocks with \<open>d\<close> and \<open>n\<close> returns the text, for every text of
  at most 2150 letters (4300 digits) made of the upper-case letters \<^verbatim>\<open>A\<close> to \<^verbatim>\<open>Z\<close> only.
\<close>

theorem C1_round_trip:
  assumes "is_prime p" and "is_prime q" and "p \<noteq> q" and "25 < p * q"
    and "1 \<le> e" and "gcd e (int ((p - 1) * (q - 1))) = 1" and "upper_text msg"
    and "2 * length msg \<le> int_max_str_digits"
    and "int ((p - 1) * (q - 1)) < 2 ^ k" and "2 * k + 1 \<le> frames"
  shows "\<exists>d bs. modular_inverse frames e (int ((p - 1) * (q - 1))) = Inr d \<and>
               encrypt_message msg e (int (p * q)) = Some (Inr bs) \<and>
               decrypt_message bs d (int (p * q)) = Inr msg"
proof -
  let ?phi = "int ((p - 1) * (q - 1))"
  let ?n = "int (p * q)"
  let ?E = "concat (map letter_digits msg)"
  have "int 2 \<le> ?phi" using totient_ge_2 [OF assms(1-3)] by (simp only: of_nat_le_iff)
  then have phi: "2 \<le> ?phi" by (simp only: of_nat_numeral)
  from modular_inverse_coprime [OF phi assms(6) assms(9) assms(10)] obtain d
    where d: "modular_inverse frames e ?phi = Inr d" "0 \<le> d" "d < ?phi" "(e * d) mod ?phi = 1"
    by blast
  have dpos: "0 < d"
  proof (rule ccontr)
    assume "\<not> 0 < d"
    with d(2) have "d = 0" by simp
    with d(4) show False by simp
  qed
  have "int 25 < ?n" using assms(4) by (simp only: of_nat_less_iff)
  then have n25: "25 < ?n" by (simp only: of_nat_numeral)
  then have n0: "?n \<noteq> 0" by linarith
  note n = n0 n25
  have enc: "text_to_numbers msg = ?E" using assms(7) by (rule text_to_numbers_upper)
  have ds: "digit_string ?E" using assms(7) by (rule encoded_digit_string)
  have ev: "even (length ?E)" using assms(7) by (simp add: encoded_length)
  have gb: "groups_below ?E ?n" using assms(7) n(2) by (rule encoded_groups_below)
  have len: "length ?E \<le> int_max_str_digits" using assms(7,8) by (simp add: encoded_length)
  from split_into_blocks_returns [OF ds ev gb len] obtain blocks
    where blocks: "split_into_blocks ?E ?n = Some (Inr blocks)" by blast
  from split_into_blocks_segments_bounded [OF ds blocks] obtain segs
    where segs: "blocks = map block_of segs" "concat segs = ?E"
      "\<forall>g \<in> set segs. seg_ok ?n g \<and> length g \<le> int_max_str_digits"
    by blast
  have dsegs: "\<forall>g \<in> set segs. digit_string g" using ds segs(2) digit_string_concat by metis
  let ?bs = "map (\<lambda>(v, k). (v ^ nat e mod ?n, k)) blocks"
  have "encrypt_message_loop blocks e ?n [] = Inr ?bs"
    using encrypt_message_loop_eq [OF n(1), of e blocks "[]"] assms(5) by simp
  then have encrypt: "encrypt_message msg e ?n = Some (Inr ?bs)"
    using enc blocks by (simp add: encrypt_message_def)
  have vals: "\<forall>g \<in> set segs. digit_string g \<and> seg_ok ?n g \<and> length g \<le> int_max_str_digits \<and>
      (int (digits_val g) ^ nat e mod ?n) ^ nat d mod ?n = int (digits_val g)"
  proof
    fix g assume g: "g \<in> set segs"
    with segs(3) have ok: "seg_ok ?n g" "length g \<le> int_max_str_digits" by simp_all
    then have "0 \<le> int (digits_val g)" "int (digits_val g) < ?n" by (simp_all add: seg_ok_def)
    then have "(int (digits_val g) ^ nat e mod ?n) ^ nat d mod ?n = int (digits_val g)"
      by (rule rsa_exponent_roundtrip [OF assms(1-3) assms(5) d(2) d(4)])
    with g dsegs ok
    show "digit_string g \<and> seg_ok ?n g \<and> length g \<le> int_max_str_digits \<and>
      (int (digits_val g) ^ nat e mod ?n) ^ nat d mod ?n = int (digits_val g)" by simp
  qed
  have "decrypt_message_loop (map (\<lambda>(v, k). (v ^ nat e mod ?n, k)) (map block_of segs)) d ?n []
          = Inr ([] @ concat segs)"
    using n(1) dpos vals by (rule decrypt_message_loop_segments)
  then have "decrypt_message ?bs d ?n = map_numbers_to_text ?E"
    using segs(1,2) by (simp add: decrypt_message_def)
  also have "\<dots> = Inr msg" using assms(7) by (rule map_numbers_to_text_encoded)
  finally have decrypt: "decrypt_message ?bs d ?n = Inr msg" .
  from d(1) encrypt decrypt show ?thesis by blast
qed

theorem C1_round_trip_witness:
  "\<exists>d bs. modular_inverse recursion_limit 17 (int ((61 - 1) * (53 - 1))) = Inr d \<and>
          encrypt_message ''HELLO'' 17 (int (61 * 53)) = Some (Inr bs) \<and>
          decrypt_message bs d (int (61 * 53)) = Inr ''HELLO''"
proof -
  have p: "is_prime 61" and q: "is_prime 53" by code_simp+
  have ne: "(61::nat) \<noteq> 53" and big: "(25::nat) < 61 * 53" and e: "(1::int) \<le> 17" by simp_all
  have co: "gcd (17::int) (int ((61 - 1) * (53 - 1))) = 1" by code_simp
  have up: "upper_text ''HELLO''" by (simp add: upper_text_def)
  have len: "2 * length ''HELLO'' \<le> int_max_str_digits" by (simp add: int_max_str_digits_def)
  have phi: "int ((61 - 1) * (53 - 1)) < 2 ^ 12" by simp
  have fr: "2 * 12 + 1 \<le> recursion_limit" by (simp add: recursion_limit_def)
  show ?thesis by (rule C1_round_trip [OF p q ne big e co up len phi fr])
qed


end
